theory Spec2Isabelle
  imports Complex_Main "HOL-Library.Multiset"
begin

section \<open>JavaScript numbers\<close>

text \<open>
  The pages compute with JavaScript numbers, which are IEEE 754 doubles. A number is
  modelled as \<open>NaN\<close>, one of the two infinities, or a finite value held as a rational. The
  result of parsing and of every addition, multiplication and division is rounded to the
  nearest double by \<open>fl\<close>: 53 significant bits, exponents down to the subnormal range, a tie
  going to the even significand, and a result of \<open>2 ^ 1024\<close> or more becoming an infinity.
  The one thing not kept is the sign of a zero, which none of the comparisons used here
  can see.
\<close>

datatype jsnum = NaN | Fin rat | PInf | NInf

fun bit_length :: "nat \<Rightarrow> nat" where
  \<comment> \<open>the number of binary digits of \<open>n\<close>\<close>
  "bit_length n = (if n = 0 then 0 else Suc (bit_length (n div 2)))"

definition binade :: "rat \<Rightarrow> int" where
  \<comment> \<open>for \<open>x > 0\<close>, the exponent \<open>b\<close> with \<open>2 ^ b \<le> x < 2 ^ (b + 1)\<close>\<close>
  "binade x =
     (if 1 \<le> x then int (bit_length (nat \<lfloor>x\<rfloor>)) - 1
      else - int (bit_length (nat \<lceil>1 / x\<rceil> - 1)))"

definition round_even :: "rat \<Rightarrow> int" where
  \<comment> \<open>the nearest integer, a tie going to the even one\<close>
  "round_even x =
     (let f = \<lfloor>x\<rfloor>; d = x - of_int f
      in if d < 1 / 2 then f
         else if 1 / 2 < d then f + 1
         else if even f then f else f + 1)"

definition fl :: "rat \<Rightarrow> jsnum" where
  \<comment> \<open>the double nearest to \<open>x\<close>: a multiple of \<open>2 ^ e\<close>, where \<open>e\<close> leaves 53 bits to the
      significand and is at least \<open>- 1074\<close>\<close>
  "fl x =
     (if x = 0 then Fin 0
      else
        (let a = \<bar>x\<bar>;
             e = max (binade a - 52) (- 1074);
             y = of_int (round_even (a / 2 powi e)) * 2 powi e
         in if 2 powi 1024 \<le> y then (if 0 < x then PInf else NInf)
            else Fin (if 0 < x then y else - y)))"

fun isNaN :: "jsnum \<Rightarrow> bool" where
  "isNaN NaN = True"
| "isNaN _ = False"

fun js_sgn :: "jsnum \<Rightarrow> int" where
  "js_sgn NaN = 0"
| "js_sgn (Fin a) = (if a < 0 then - 1 else if a = 0 then 0 else 1)"
| "js_sgn PInf = 1"
| "js_sgn NInf = - 1"

fun js_neg :: "jsnum \<Rightarrow> jsnum" where
  "js_neg NaN = NaN"
| "js_neg (Fin a) = Fin (- a)"
| "js_neg PInf = NInf"
| "js_neg NInf = PInf"

fun js_add :: "jsnum \<Rightarrow> jsnum \<Rightarrow> jsnum" where
  "js_add NaN _ = NaN"
| "js_add _ NaN = NaN"
| "js_add (Fin a) (Fin b) = fl (a + b)"
| "js_add (Fin a) y = y"
| "js_add x (Fin b) = x"
| "js_add PInf PInf = PInf"
| "js_add NInf NInf = NInf"
| "js_add PInf NInf = NaN"
| "js_add NInf PInf = NaN"

definition js_sub :: "jsnum \<Rightarrow> jsnum \<Rightarrow> jsnum" where
  "js_sub x y = js_add x (js_neg y)"

fun js_mul :: "jsnum \<Rightarrow> jsnum \<Rightarrow> jsnum" where
  "js_mul NaN _ = NaN"
| "js_mul _ NaN = NaN"
| "js_mul (Fin a) (Fin b) = fl (a * b)"
| "js_mul x y =
     (let s = js_sgn x * js_sgn y
      in if s = 0 then NaN else if 0 < s then PInf else NInf)"

fun js_div :: "jsnum \<Rightarrow> jsnum \<Rightarrow> jsnum" where
  "js_div NaN _ = NaN"
| "js_div _ NaN = NaN"
| "js_div (Fin a) (Fin b) =
     (if b = 0 then (if a = 0 then NaN else if 0 < a then PInf else NInf)
      else fl (a / b))"
| "js_div (Fin a) y = Fin 0"
| "js_div x (Fin b) = (if b < 0 then js_neg x else x)"
| "js_div x y = NaN"

fun js_lt :: "jsnum \<Rightarrow> jsnum \<Rightarrow> bool" where
  "js_lt NaN _ = False"
| "js_lt _ NaN = False"
| "js_lt (Fin a) (Fin b) = (a < b)"
| "js_lt x NInf = False"
| "js_lt NInf y = True"
| "js_lt PInf y = False"
| "js_lt x PInf = True"

definition js_gt :: "jsnum \<Rightarrow> jsnum \<Rightarrow> bool" where
  "js_gt x y = js_lt y x"

definition js_le :: "jsnum \<Rightarrow> jsnum \<Rightarrow> bool" where
  "js_le x y = (\<not> isNaN x \<and> \<not> isNaN y \<and> \<not> js_lt y x)"

definition js_strict_ne :: "jsnum \<Rightarrow> jsnum \<Rightarrow> bool" where
  \<comment> \<open>\<open>x !== y\<close> on numbers: \<open>NaN\<close> differs from everything, itself included.\<close>
  "js_strict_ne x y = (isNaN x \<or> isNaN y \<or> x \<noteq> y)"

fun Math_round :: "jsnum \<Rightarrow> jsnum" where
  \<comment> \<open>\<open>Math.round\<close>: the nearest integer, a tie going up; exact on a double\<close>
  "Math_round (Fin a) = Fin (of_int \<lfloor>a + 1 / 2\<rfloor>)"
| "Math_round x = x"

fun Math_floor :: "jsnum \<Rightarrow> jsnum" where
  "Math_floor (Fin a) = Fin (of_int \<lfloor>a\<rfloor>)"
| "Math_floor x = x"

section \<open>JavaScript strings\<close>

text \<open>
  Strings are lists of 8-bit characters (the code units up to U+00FF), which cover every
  character the validation and parsing code tells apart. The white space of \<open>trim\<close> and of
  \<open>parseFloat\<close> is ECMAScript's \<open>WhiteSpace\<close> and \<open>LineTerminator\<close>; in this range that is
  TAB, LF, VT, FF, CR, SP and NBSP.
\<close>

definition isStrWhiteSpaceChar :: "char \<Rightarrow> bool" where
  "isStrWhiteSpaceChar c = ((of_char c :: nat) \<in> {9, 10, 11, 12, 13, 32, 160})"

definition trimStart :: "string \<Rightarrow> string" where
  "trimStart s = dropWhile isStrWhiteSpaceChar s"

definition trim :: "string \<Rightarrow> string" where
  "trim s = rev (dropWhile isStrWhiteSpaceChar (rev (dropWhile isStrWhiteSpaceChar s)))"

definition isDecimalDigit :: "char \<Rightarrow> bool" where
  "isDecimalDigit c = (48 \<le> (of_char c :: nat) \<and> (of_char c :: nat) \<le> 57)"

fun digits_value :: "nat \<Rightarrow> string \<Rightarrow> nat" where
  \<comment> \<open>the value of a run of decimal digits, most significant first\<close>
  "digits_value acc [] = acc"
| "digits_value acc (c # cs) = digits_value (10 * acc + (of_char c - 48)) cs"

fun split_on :: "char \<Rightarrow> string \<Rightarrow> string list" where
  \<comment> \<open>\<open>s.split(c)\<close> for a one-character separator\<close>
  "split_on sep [] = [[]]"
| "split_on sep (c # cs) =
     (if c = sep then [] # split_on sep cs
      else (case split_on sep cs of [] \<Rightarrow> [[c]] | p # ps \<Rightarrow> (c # p) # ps))"

subsection \<open>parseFloat\<close>

text \<open>
  \<open>parseFloat\<close> skips leading white space and reads the longest prefix that is a
  \<open>StrDecimalLiteral\<close>: an optional sign, then \<open>Infinity\<close> or decimal digits with an optional
  fraction and an optional exponent (an exponent counts only when it has a digit). With no
  such prefix the result is \<open>NaN\<close>; otherwise it is the double nearest to the decimal value
  read, which is an infinity for a literal such as \<open>1e309\<close> and zero for one such as
  \<open>1e-400\<close>.
\<close>

definition strip_sign :: "string \<Rightarrow> bool \<times> string" where
  "strip_sign s =
     (case s of
        [] \<Rightarrow> (False, [])
      | c # r \<Rightarrow> if c = CHR ''-'' then (True, r)
                else if c = CHR ''+'' then (False, r)
                else (False, s))"

definition exponent_part :: "string \<Rightarrow> int" where
  "exponent_part s =
     (case s of
        [] \<Rightarrow> 0
      | c # r \<Rightarrow>
          if c = CHR ''e'' \<or> c = CHR ''E'' then
            (let (eneg, d) = strip_sign r;
                 ds = takeWhile isDecimalDigit d
             in if ds = [] then 0
                else if eneg then - int (digits_value 0 ds)
                else int (digits_value 0 ds))
          else 0)"

definition scale10 :: "rat \<Rightarrow> int \<Rightarrow> rat" where
  "scale10 m e = (if 0 \<le> e then m * 10 ^ nat e else m / 10 ^ nat (- e))"

definition parseFloat :: "string \<Rightarrow> jsnum" where
  "parseFloat s =
     (let (neg, u) = strip_sign (trimStart s)
      in if take 8 u = ''Infinity'' then (if neg then NInf else PInf)
         else
           (let ip = takeWhile isDecimalDigit u;
                r1 = dropWhile isDecimalDigit u;
                fp = (case r1 of
                        [] \<Rightarrow> []
                      | c # r \<Rightarrow> if c = CHR ''.'' then takeWhile isDecimalDigit r else []);
                r2 = (case r1 of
                        [] \<Rightarrow> []
                      | c # r \<Rightarrow> if c = CHR ''.'' then dropWhile isDecimalDigit r else r1)
            in if ip = [] \<and> fp = [] then NaN
               else
                 (let mant = of_nat (digits_value 0 ip)
                             + of_nat (digits_value 0 fp) / 10 ^ length fp;
                      v = scale10 mant (exponent_part r2)
                  in fl (if neg then - v else v))))"

section \<open>Data model\<close>

text \<open>
  The types of both pages. The form state holds what the React state holds when the form is
  submitted; the state variable \<open>amount\<close> is the field \<open>amountInput\<close> here, since
  \<open>amount\<close> is also the name of a split row's field. \<open>customShares\<close> is the record from user
  id to the text typed for that member.
\<close>

record AuthUser =
  auth_id :: string
  auth_email :: "string option"

record Member =
  userId :: string
  email :: "string option"

datatype SplitType = equal_all | equal_selected | custom

datatype ExpenseType = expense | credit

record SplitRow =
  user_id :: string
  amount :: jsnum

record CreditSplitRow = SplitRow +
  expense_id :: string

record form_state =
  currentUser :: "AuthUser option"
  members :: "Member list"
  description :: string
  amountInput :: string
  paidBy :: string

record expense_form = form_state +
  expenseType :: ExpenseType
  splitType :: SplitType
  selectedMemberIds :: "string list"
  customShares :: "string \<rightharpoonup> string"

record credit_form = form_state +
  paidTo :: string

text \<open>
  The messages a handler can set, one constructor per message of the source:
  \<^item> \<open>DescriptionMissing\<close>: "Please enter a description.";
    \<open>DescriptionInvalid\<close>: "Description can only contain letters, numbers, spaces, and
    basic punctuation."
  \<^item> \<open>AmountNotPositive\<close>: "Please enter a valid positive amount." (expense page),
    "Amount must be greater than zero." (credit page);
    \<open>AmountTooPrecise\<close>: "Amount cannot have more than 2 decimal places."
  \<^item> \<open>NoneSelected\<close>: "Please select at least one member to split between.";
    \<open>NoParticipants\<close>: "No members available to split this expense.";
    \<open>InvalidShare\<close>: "Custom amounts must be non-negative numbers.";
    \<open>TotalMismatch\<close>: "Custom amounts must add up exactly to the total amount.";
    \<open>EmptyCustomSet\<close>: "Please enter at least one custom amount.";
    \<open>NoSplits\<close>: "Could not compute splits for this expense."
  \<^item> \<open>ParticipantMissing\<close>: "Please select both who paid and who received.";
    \<open>SameParticipant\<close>: "Paid by and Paid to cannot be the same person."
\<close>

datatype DescriptionError = DescriptionMissing | DescriptionInvalid

datatype AmountError = AmountNotPositive | AmountTooPrecise

datatype SplitError =
  NoneSelected | NoParticipants | InvalidShare | TotalMismatch | EmptyCustomSet | NoSplits

datatype ParticipantError = ParticipantMissing | SameParticipant

text \<open>
  What a run of a submit handler leaves behind: the error fields as last set, whether it
  redirected to the login page, and the split rows it built (\<open>None\<close> when it returned before
  building them). \<open>splits = Some rows\<close> means the handler went on to store \<open>rows\<close>.
\<close>

record handler_result =
  descriptionError :: "DescriptionError option"
  amountError :: "AmountError option"
  redirected :: bool

record expense_result = handler_result +
  splitError :: "SplitError option"
  splits :: "SplitRow list option"

section \<open>Validation shared by the two pages\<close>

definition isDescriptionChar :: "char \<Rightarrow> bool" where
  \<comment> \<open>the character class \<open>[A-Za-z0-9 ,.!?'"-]\<close>\<close>
  "isDescriptionChar c =
     (let n = (of_char c :: nat)
      in (65 \<le> n \<and> n \<le> 90) \<or> (97 \<le> n \<and> n \<le> 122) \<or> (48 \<le> n \<and> n \<le> 57)
         \<or> n \<in> {32, 44, 46, 33, 63, 39, 34, 45})"

definition descriptionPattern_test :: "string \<Rightarrow> bool" where
  "descriptionPattern_test s = (s \<noteq> [] \<and> list_all isDescriptionChar s)"

definition too_many_decimals :: "string \<Rightarrow> bool" where
  \<comment> \<open>\<open>amountParts[1] && amountParts[1].length > 2\<close> for \<open>amountParts = amount.split('.')\<close>\<close>
  "too_many_decimals a =
     (case drop 1 (split_on CHR ''.'' a) of
        [] \<Rightarrow> False
      | p # _ \<Rightarrow> p \<noteq> [] \<and> 2 < length p)"

section \<open>The add-expense page\<close>

definition no_errors :: expense_result where
  "no_errors = \<lparr>descriptionError = None, amountError = None, redirected = False,
                splitError = None, splits = None\<rparr>"

definition participantIds_of :: "expense_form \<Rightarrow> string list" where
  "participantIds_of st =
     (if splitType st = equal_all then map userId (members st)
      else if splitType st = equal_selected then selectedMemberIds st
      else map userId (members st))"

definition equal_rows :: "jsnum \<Rightarrow> string list \<Rightarrow> SplitRow list" where
  \<comment> \<open>the rows pushed by the \<open>forEach\<close> of the equal branch, for \<open>count > 0\<close>\<close>
  "equal_rows totalCents participantIds =
     (let count = Fin (of_nat (length participantIds));
          baseCents = Math_floor (js_div totalCents count);
          remainder = js_sub totalCents (js_mul baseCents count)
      in map (\<lambda>(index, userId).
                let shareCents =
                      js_add baseCents (if js_lt (Fin (of_nat index)) remainder then Fin 1 else Fin 0)
                in \<lparr>user_id = userId, amount = js_div shareCents (Fin 100)\<rparr>)
             (enumerate 0 participantIds))"

record custom_acc =
  sumCents :: jsnum
  customSplits :: "SplitRow list"
  shareError :: "SplitError option"

definition custom_step :: "(string \<rightharpoonup> string) \<Rightarrow> Member \<Rightarrow> custom_acc \<Rightarrow> custom_acc" where
  \<comment> \<open>one call of the \<open>members.forEach\<close> callback of the custom branch; its \<open>return\<close>s
      end the callback, and the loop goes on with the next member\<close>
  "custom_step shares member acc =
     (let raw = trim (case shares (userId member) of None \<Rightarrow> [] | Some v \<Rightarrow> v)
      in if raw = [] then acc
         else
           (let v = parseFloat raw
            in if isNaN v \<or> js_lt v (Fin 0) then acc\<lparr>shareError := Some InvalidShare\<rparr>
               else
                 (let cents = Math_round (js_mul v (Fin 100))
                  in if js_gt cents (Fin 0) then
                       acc\<lparr>sumCents := js_add (sumCents acc) cents,
                           customSplits := customSplits acc @
                             [\<lparr>user_id = userId member, amount = js_div cents (Fin 100)\<rparr>]\<rparr>
                     else acc)))"

definition custom_loop :: "(string \<rightharpoonup> string) \<Rightarrow> Member list \<Rightarrow> custom_acc" where
  "custom_loop shares ms =
     fold (custom_step shares) ms \<lparr>sumCents = Fin 0, customSplits = [], shareError = None\<rparr>"

definition finish_splits :: "expense_result \<Rightarrow> SplitRow list \<Rightarrow> expense_result" where
  \<comment> \<open>the last check before the rows are stored\<close>
  "finish_splits r rows =
     (if length rows = 0 then r\<lparr>splitError := Some NoSplits\<rparr>
      else r\<lparr>splits := Some rows\<rparr>)"

definition handleSubmit_expense :: "expense_form \<Rightarrow> expense_result" where
  "handleSubmit_expense st =
     (let trimmedDescription = trim (description st)
      in if trimmedDescription = [] then no_errors\<lparr>descriptionError := Some DescriptionMissing\<rparr>
         else if \<not> descriptionPattern_test trimmedDescription then
           no_errors\<lparr>descriptionError := Some DescriptionInvalid\<rparr>
         else
           (let numericAmount = parseFloat (amountInput st)
            in if amountInput st = [] \<or> isNaN numericAmount \<or> js_le numericAmount (Fin 0) then
                 no_errors\<lparr>amountError := Some AmountNotPositive\<rparr>
               else if too_many_decimals (amountInput st) then
                 no_errors\<lparr>amountError := Some AmountTooPrecise\<rparr>
               else if currentUser st = None then no_errors\<lparr>redirected := True\<rparr>
               else
                 (let participantIds = participantIds_of st
                  in if splitType st = equal_selected \<and> length participantIds = 0 then
                       no_errors\<lparr>splitError := Some NoneSelected\<rparr>
                     else
                       (let totalCents = Math_round (js_mul numericAmount (Fin 100))
                        in if splitType st = equal_all \<or> splitType st = equal_selected then
                             (if length participantIds = 0 then
                                no_errors\<lparr>splitError := Some NoParticipants\<rparr>
                              else finish_splits no_errors (equal_rows totalCents participantIds))
                           else
                             (let acc = custom_loop (customShares st) (members st);
                                  r = no_errors\<lparr>splitError := shareError acc\<rparr>
                              in if js_strict_ne (sumCents acc) totalCents then
                                   r\<lparr>splitError := Some TotalMismatch\<rparr>
                                 else if length (customSplits acc) = 0 then
                                   r\<lparr>splitError := Some EmptyCustomSet\<rparr>
                                 else finish_splits r (customSplits acc))))))"

section \<open>The add-credit page\<close>

text \<open>
  The credit handler validates, stores the expense row and then builds its two split rows
  with the id the store returned. The store's answer to that first insert is an input of
  the model: a row with its id, no row (with the store's message, if it gave one), or an
  exception.
\<close>

datatype insert_reply = Inserted string | NotInserted "string option" | Thrown

record credit_result = handler_result +
  participantError :: "ParticipantError option"
  generalError :: "string option"
  credit_splits :: "CreditSplitRow list option"

definition no_credit_errors :: credit_result where
  "no_credit_errors = \<lparr>descriptionError = None, amountError = None, redirected = False,
                       participantError = None, generalError = None, credit_splits = None\<rparr>"

definition handleSubmit_credit :: "credit_form \<Rightarrow> insert_reply \<Rightarrow> credit_result" where
  "handleSubmit_credit st reply =
     (let trimmedDescription = trim (description st)
      in if trimmedDescription = [] then
           no_credit_errors\<lparr>descriptionError := Some DescriptionMissing\<rparr>
         else if \<not> descriptionPattern_test trimmedDescription then
           no_credit_errors\<lparr>descriptionError := Some DescriptionInvalid\<rparr>
         else
           (let numericAmount = parseFloat (amountInput st)
            in if amountInput st = [] \<or> isNaN numericAmount \<or> js_le numericAmount (Fin 0) then
                 no_credit_errors\<lparr>amountError := Some AmountNotPositive\<rparr>
               else if too_many_decimals (amountInput st) then
                 no_credit_errors\<lparr>amountError := Some AmountTooPrecise\<rparr>
               else if paidBy st = [] \<or> paidTo st = [] then
                 no_credit_errors\<lparr>participantError := Some ParticipantMissing\<rparr>
               else if paidBy st = paidTo st then
                 no_credit_errors\<lparr>participantError := Some SameParticipant\<rparr>
               else if currentUser st = None then no_credit_errors\<lparr>redirected := True\<rparr>
               else if paidBy st = paidTo st then
                 no_credit_errors\<lparr>participantError := Some SameParticipant\<rparr>
               else
                 (case reply of
                    Thrown \<Rightarrow>
                      no_credit_errors\<lparr>generalError :=
                        Some ''Something went wrong. Please try again.''\<rparr>
                  | NotInserted e \<Rightarrow>
                      no_credit_errors\<lparr>generalError :=
                        Some (case e of None \<Rightarrow> ''Could not save the credit.'' | Some m \<Rightarrow> m)\<rparr>
                  | Inserted expenseId \<Rightarrow>
                      no_credit_errors\<lparr>credit_splits := Some
                        [\<lparr>user_id = paidBy st, amount = js_neg numericAmount,
                          expense_id = expenseId\<rparr>,
                         \<lparr>user_id = paidTo st, amount = numericAmount,
                          expense_id = expenseId\<rparr>]\<rparr>)))"

section \<open>Notions of the specification\<close>

text \<open>
  The specification speaks of a total that has passed the page's checks, of amounts in
  minor units, and of the custom shares that were accepted. These are stated here in its
  words, next to the code they are compared with.
\<close>

definition valid_details :: "'a form_state_scheme \<Rightarrow> bool" where
  \<comment> \<open>the description and the amount pass the checks that both handlers start with\<close>
  "valid_details st =
     (trim (description st) \<noteq> [] \<and> descriptionPattern_test (trim (description st))
      \<and> amountInput st \<noteq> [] \<and> \<not> isNaN (parseFloat (amountInput st))
      \<and> \<not> js_le (parseFloat (amountInput st)) (Fin 0)
      \<and> \<not> too_many_decimals (amountInput st))"

definition accepted_input :: "'a form_state_scheme \<Rightarrow> bool" where
  \<comment> \<open>a submission that a signed-in user makes with a valid description and amount\<close>
  "accepted_input st = (valid_details st \<and> currentUser st \<noteq> None)"

definition totalCents_of :: "'a form_state_scheme \<Rightarrow> jsnum" where
  \<comment> \<open>the total in minor units, \<open>round(total * 100)\<close>\<close>
  "totalCents_of st = Math_round (js_mul (parseFloat (amountInput st)) (Fin 100))"

definition minor_units :: "jsnum \<Rightarrow> int option" where
  \<comment> \<open>an amount in minor units, \<open>round(amount * 100)\<close>, when it is finite\<close>
  "minor_units x = (case Math_round (js_mul x (Fin 100)) of Fin q \<Rightarrow> Some \<lfloor>q\<rfloor> | _ \<Rightarrow> None)"

definition total_minor_units :: "SplitRow list \<Rightarrow> int option" where
  \<comment> \<open>the sum of the rows' amounts in minor units, when all are finite\<close>
  "total_minor_units rows = map_option sum_list (those (map (\<lambda>r. minor_units (amount r)) rows))"

definition share_entry :: "(string \<rightharpoonup> string) \<Rightarrow> Member \<Rightarrow> string" where
  \<comment> \<open>what was typed for a member, trimmed; blank when nothing was\<close>
  "share_entry shares m = trim (case shares (userId m) of None \<Rightarrow> [] | Some v \<Rightarrow> v)"

definition invalid_share :: "string \<Rightarrow> bool" where
  \<comment> \<open>a non-blank entry that does not parse, or parses to a negative value\<close>
  "invalid_share raw = (raw \<noteq> [] \<and> (isNaN (parseFloat raw) \<or> js_lt (parseFloat raw) (Fin 0)))"

definition accepted_shares :: "(string \<rightharpoonup> string) \<Rightarrow> Member list \<Rightarrow> jsnum list" where
  \<comment> \<open>the values of the entries that are non-blank, parseable and non-negative, in member order\<close>
  "accepted_shares shares ms =
     map parseFloat
       (filter (\<lambda>raw. raw \<noteq> [] \<and> \<not> invalid_share raw) (map (share_entry shares) ms))"

definition accepted_minor_units :: "(string \<rightharpoonup> string) \<Rightarrow> Member list \<Rightarrow> int list option" where
  \<comment> \<open>the accepted shares in minor units, when all are finite\<close>
  "accepted_minor_units shares ms = those (map minor_units (accepted_shares shares ms))"

definition cents_or_zero :: "(string \<rightharpoonup> string) \<Rightarrow> Member \<Rightarrow> int" where
  \<comment> \<open>a member's accepted share in minor units; 0 for an entry that is blank, not accepted
      or not finite\<close>
  "cents_or_zero shares m =
     (if share_entry shares m \<noteq> [] \<and> \<not> invalid_share (share_entry shares m) then
        (case minor_units (parseFloat (share_entry shares m)) of None \<Rightarrow> 0 | Some c \<Rightarrow> c)
      else 0)"

definition share_of :: "int \<Rightarrow> nat \<Rightarrow> nat \<Rightarrow> int" where
  \<comment> \<open>the share, in minor units, of the participant at index \<open>i\<close> among \<open>n\<close>: the base, and one
      more for the first \<open>T mod n\<close>\<close>
  "share_of T n i = T div int n + (if int i < T mod int n then 1 else 0)"

definition positive_rows :: "(string \<rightharpoonup> string) \<Rightarrow> Member list \<Rightarrow> SplitRow list" where
  \<comment> \<open>the rows for the members whose entry is accepted and positive in minor units, in
      member order\<close>
  "positive_rows shares ms =
     map (\<lambda>m. \<lparr>user_id = userId m,
               amount = js_div (Math_round (js_mul (parseFloat (share_entry shares m)) (Fin 100)))
                          (Fin 100)\<rparr>)
       (filter (\<lambda>m. share_entry shares m \<noteq> [] \<and> \<not> invalid_share (share_entry shares m)
                    \<and> js_gt (Math_round (js_mul (parseFloat (share_entry shares m)) (Fin 100)))
                         (Fin 0))
          ms)"

section \<open>Example submissions\<close>

text \<open>
  Concrete form states, on which the theorems below are instantiated: a signed-in user, the
  description "Dinner" (or "Paid back" for a credit), members without e-mail addresses.
\<close>

definition member_of :: "string \<Rightarrow> Member" where
  "member_of u = \<lparr>userId = u, email = None\<rparr>"

definition submission ::
  "string \<Rightarrow> SplitType \<Rightarrow> string list \<Rightarrow> string list \<Rightarrow> (string \<times> string) list \<Rightarrow> expense_form" where
  "submission a t ms sel shares =
     \<lparr>currentUser = Some \<lparr>auth_id = ''u1'', auth_email = None\<rparr>,
      members = map member_of ms, description = ''Dinner'', amountInput = a,
      paidBy = ''u1'', expenseType = expense, splitType = t,
      selectedMemberIds = sel, customShares = map_of shares\<rparr>"

definition credit_submission :: "string \<Rightarrow> string \<Rightarrow> string \<Rightarrow> credit_form" where
  "credit_submission a payer recipient =
     \<lparr>currentUser = Some \<lparr>auth_id = ''u1'', auth_email = None\<rparr>,
      members = map member_of [''A'', ''B''], description = ''Paid back'', amountInput = a,
      paidBy = payer, paidTo = recipient\<rparr>"

section \<open>Auxiliary facts\<close>

subsection \<open>Rounding to a double\<close>

text \<open>
  What is needed about \<open>fl\<close>: its value on a known binade, the bound on the rounding error,
  and that integers below \<open>2 ^ 53\<close> in magnitude are doubles. From these: the floor of the
  quotient of two such integers is their integer quotient, and an amount of at most
  \<open>2 ^ 50\<close> minor units, divided by 100 and multiplied by 100 again, rounds back to itself.
\<close>

declare bit_length.simps [simp del]

lemma bit_length_pos: "0 < n \<Longrightarrow> 0 < bit_length n"
  by (subst bit_length.simps) simp

lemma bit_length_bounds:
  "0 < n \<Longrightarrow> 2 ^ (bit_length n - 1) \<le> n \<and> n < 2 ^ bit_length n"
proof (induction n rule: bit_length.induct)
  case (1 n)
  show ?case
  proof (cases "n div 2 = 0")
    case True
    with "1.prems" have "n = 1" by (simp add: div_eq_0_iff)
    then show ?thesis by (simp add: bit_length.simps)
  next
    case False
    then have pos: "0 < n div 2" by simp
    from "1.IH" [OF _ pos] "1.prems"
    have ih: "2 ^ (bit_length (n div 2) - 1) \<le> n div 2" "n div 2 < 2 ^ bit_length (n div 2)"
      by simp_all
    have bl: "bit_length n = Suc (bit_length (n div 2))"
      using "1.prems" by (subst bit_length.simps) simp
    have bpos: "0 < bit_length (n div 2)"
      using pos by (subst bit_length.simps) simp
    have "2 ^ (bit_length n - 1) = 2 * 2 ^ (bit_length (n div 2) - 1)"
      using bpos by (simp add: bl power_Suc [symmetric] del: power_Suc)
    also have "\<dots> \<le> 2 * (n div 2)" using ih(1) by simp
    also have "\<dots> \<le> n" by simp
    finally have lo: "2 ^ (bit_length n - 1) \<le> n" .
    have "n < 2 * (n div 2) + 2" by presburger
    also have "\<dots> \<le> 2 * 2 ^ bit_length (n div 2)" using ih(2) by simp
    finally have "n < 2 ^ bit_length n" by (simp add: bl)
    with lo show ?thesis by simp
  qed
qed

lemma binade_bounds:
  assumes "0 < x"
  shows "2 powi binade x \<le> x \<and> x < 2 powi (binade x + 1)"
proof (cases "1 \<le> x")
  case True
  let ?n = "nat \<lfloor>x\<rfloor>"
  have n: "0 < ?n" using True by simp
  have b: "binade x = int (bit_length ?n) - 1" using True by (simp add: binade_def)
  have blpos: "0 < bit_length ?n" by (rule bit_length_pos [OF n])
  from bit_length_bounds [OF n]
  have lo: "2 ^ (bit_length ?n - 1) \<le> ?n" and hi: "?n < 2 ^ bit_length ?n" by simp_all
  have e1: "(2::rat) powi binade x = 2 ^ (bit_length ?n - 1)"
    using blpos by (simp add: b power_int_def nat_diff_distrib' of_nat_diff)
  have e2: "(2::rat) powi (binade x + 1) = 2 ^ bit_length ?n"
    by (simp add: b)
  have "(2::rat) ^ (bit_length ?n - 1) \<le> of_nat ?n"
    using lo by (metis of_nat_le_iff of_nat_numeral of_nat_power)
  also have "\<dots> \<le> x" using True by simp
  finally have l: "2 powi binade x \<le> x" by (simp add: e1)
  have "Suc ?n \<le> 2 ^ bit_length ?n" by (rule Suc_leI [OF hi])
  then have "(of_nat (Suc ?n) :: rat) \<le> 2 ^ bit_length ?n"
    by (metis of_nat_le_iff of_nat_numeral of_nat_power)
  moreover have "x < of_nat (Suc ?n)" using True by simp linarith
  ultimately have "x < 2 powi (binade x + 1)" by (simp add: e2)
  with l show ?thesis by simp
next
  case False
  let ?c = "nat \<lceil>1 / x\<rceil>"
  let ?k = "bit_length (?c - 1)"
  have x1: "x < 1" using False by simp
  have y1: "1 < 1 / x" using assms x1 by simp
  have "(1::rat) < of_int \<lceil>1 / x\<rceil>"
    using y1 le_of_int_ceiling [of "1 / x"] by linarith
  then have "1 < \<lceil>1 / x\<rceil>" by simp
  then have c2: "2 \<le> ?c" by linarith
  then have m: "0 < ?c - 1" by linarith
  have b: "binade x = - int ?k" using False by (simp add: binade_def)
  have kpos: "0 < ?k" by (rule bit_length_pos [OF m])
  from bit_length_bounds [OF m]
  have lo: "2 ^ (?k - 1) \<le> ?c - 1" and hi: "?c - 1 < 2 ^ ?k" by simp_all
  have "?c \<le> 2 ^ ?k" using hi m by linarith
  then have "(of_nat ?c :: rat) \<le> 2 ^ ?k"
    by (metis of_nat_le_iff of_nat_numeral of_nat_power)
  moreover have "1 / x \<le> of_nat ?c" using y1 by simp
  ultimately have le: "1 / x \<le> 2 ^ ?k" by linarith
  have "(2::rat) ^ (?k - 1) \<le> of_nat (?c - 1)"
    using lo by (metis of_nat_le_iff of_nat_numeral of_nat_power)
  moreover have "(of_nat (?c - 1) :: rat) < 1 / x"
  proof -
    have "(of_nat (?c - 1) :: rat) = of_int (\<lceil>1 / x\<rceil> - 1)" using c2 by simp
    also have "\<dots> < 1 / x" by linarith
    finally show ?thesis .
  qed
  ultimately have gt: "2 ^ (?k - 1) < 1 / x" by linarith
  have p1: "(2::rat) powi binade x = 1 / 2 ^ ?k"
    by (simp add: b power_int_minus divide_inverse)
  have p2: "(2::rat) powi (binade x + 1) = 1 / 2 ^ (?k - 1)"
  proof -
    have "binade x + 1 = - int (?k - 1)" using kpos by (simp add: b)
    then show ?thesis by (simp add: power_int_minus divide_inverse)
  qed
  have "1 / 2 ^ ?k \<le> x"
    using le assms by (simp add: field_simps)
  moreover have "x < 1 / 2 ^ (?k - 1)"
    using gt assms by (simp add: field_simps)
  ultimately show ?thesis by (simp add: p1 p2)
qed

lemma binade_unique:
  assumes "0 < x" and "2 powi b \<le> x" and "x < 2 powi (b + 1)"
  shows "binade x = b"
proof (rule ccontr)
  assume ne: "binade x \<noteq> b"
  from binade_bounds [OF assms(1)]
  have lo: "2 powi binade x \<le> x" and hi: "x < 2 powi (binade x + 1)" by simp_all
  show False
  proof (cases "binade x < b")
    case True
    then have "binade x + 1 \<le> b" by simp
    then have "(2::rat) powi (binade x + 1) \<le> 2 powi b"
      by (intro power_int_increasing) simp_all
    with hi assms(2) show False by linarith
  next
    case False
    with ne have "b + 1 \<le> binade x" by simp
    then have "(2::rat) powi (b + 1) \<le> 2 powi binade x"
      by (intro power_int_increasing) simp_all
    with lo assms(3) show False by linarith
  qed
qed

lemma round_even_int: "round_even (of_int n) = n"
  by (simp add: round_even_def)

lemma round_even_error: "\<bar>of_int (round_even x) - x\<bar> \<le> 1 / 2"
proof -
  have "of_int \<lfloor>x\<rfloor> \<le> x" "x < of_int \<lfloor>x\<rfloor> + 1" by linarith+
  then show ?thesis by (auto simp add: round_even_def Let_def)
qed

lemma round_even_nonneg: "0 \<le> x \<Longrightarrow> 0 \<le> round_even x"
  by (auto simp add: round_even_def Let_def)

lemma round_even_le:
  assumes "x \<le> of_int n"
  shows "round_even x \<le> n"
proof -
  have "\<bar>of_int (round_even x) - x\<bar> \<le> 1 / 2" by (rule round_even_error)
  then have "(of_int (round_even x) :: rat) \<le> of_int n + 1 / 2" using assms by linarith
  then have "(of_int (round_even x) :: rat) < of_int (n + 1)" by simp
  then have "round_even x < n + 1" by (simp only: of_int_less_iff)
  then show ?thesis by simp
qed

lemma fl_zero: "fl 0 = Fin 0"
  by (simp add: fl_def)

lemma fl_neg: "fl (- x) = js_neg (fl x)"
  by (cases "x = 0"; cases "0 < x") (auto simp add: fl_def Let_def)

lemma pow2_pos: "0 < (2::rat) powi e"
  by simp

lemma pow2_add: "(2::rat) powi (a + b) = 2 powi a * 2 powi b"
  by (rule power_int_add) simp

lemma pow2_diff: "(2::rat) powi (a - b) = 2 powi a / 2 powi b"
  by (rule power_int_diff) simp

lemma pow2_less_imp:
  assumes "(2::rat) powi a < 2 powi b"
  shows "a < b"
proof (rule ccontr)
  assume "\<not> a < b"
  then have "b \<le> a" by simp
  then have "(2::rat) powi b \<le> 2 powi a"
    by (intro power_int_increasing) simp_all
  with assms show False by linarith
qed

lemma fl_eval:
  assumes "0 < x" and "2 powi b \<le> x" and "x < 2 powi (b + 1)"
      and "- 1022 \<le> b" and "b \<le> 1022"
  shows "fl x = Fin (of_int (round_even (x / 2 powi (b - 52))) * 2 powi (b - 52))"
proof -
  let ?e = "b - 52"
  let ?m = "round_even (x / 2 powi ?e)"
  have bin: "binade x = b"
    using assms(1-3) by (simp add: binade_unique)
  have e: "max (binade x - 52) (- 1074) = ?e"
    using assms(4) by (simp add: bin)
  have "x / 2 powi ?e < 2 powi (b + 1) / 2 powi ?e"
    using assms(3) by (simp add: divide_strict_right_mono)
  also have "\<dots> = 2 powi 53"
    by (simp flip: pow2_diff)
  finally have "x / 2 powi ?e \<le> of_int (2 ^ 53)" by simp
  then have m: "?m \<le> 2 ^ 53" by (rule round_even_le)
  have "of_int ?m * (2::rat) powi ?e \<le> of_int (2 ^ 53) * 2 powi ?e"
    using m by (intro mult_right_mono) (simp_all only: of_int_le_iff, simp)
  also have "\<dots> = 2 powi (b + 1)"
    using pow2_add [of 53 "b - 52"] by (simp add: add.commute)
  also have "\<dots> \<le> 2 powi 1023"
    using assms(5) by (intro power_int_increasing) simp_all
  also have "\<dots> < 2 powi 1024"
    by (intro power_int_strict_increasing) simp_all
  finally have small: "\<not> 2 powi 1024 \<le> of_int ?m * (2::rat) powi ?e" by simp
  have ax: "\<bar>x\<bar> = x" using assms(1) by simp
  have "fl x = (let a = x; e = max (binade a - 52) (- 1074);
                     y = of_int (round_even (a / 2 powi e)) * 2 powi e
                 in if 2 powi 1024 \<le> y then PInf else Fin y)"
    using assms(1) by (simp add: fl_def ax Let_def)
  then show ?thesis
    unfolding Let_def e using small by simp
qed

lemma fl_error:
  assumes "2 powi (- 1022) \<le> x" and "x < 2 powi 1023"
  shows "\<exists>y. fl x = Fin y \<and> \<bar>y - x\<bar> \<le> x / 2 ^ 53"
proof -
  have pos: "0 < x" using assms(1) pow2_pos [of "- 1022"] by linarith
  let ?b = "binade x"
  from binade_bounds [OF pos]
  have lo: "2 powi ?b \<le> x" and hi: "x < 2 powi (?b + 1)" by simp_all
  have b1: "- 1022 \<le> ?b"
  proof (rule ccontr)
    assume "\<not> - 1022 \<le> ?b"
    then have "?b + 1 \<le> - 1022" by simp
    then have "(2::rat) powi (?b + 1) \<le> 2 powi (- 1022)"
      by (intro power_int_increasing) simp_all
    with hi assms(1) show False by linarith
  qed
  have b2: "?b \<le> 1022"
  proof (rule ccontr)
    assume "\<not> ?b \<le> 1022"
    then have "1023 \<le> ?b" by simp
    then have "(2::rat) powi 1023 \<le> 2 powi ?b"
      by (intro power_int_increasing) simp_all
    with lo assms(2) show False by linarith
  qed
  let ?e = "?b - 52"
  let ?m = "round_even (x / 2 powi ?e)"
  let ?y = "of_int ?m * (2::rat) powi ?e"
  have ev: "fl x = Fin ?y" by (rule fl_eval [OF pos lo hi b1 b2])
  have pe: "0 < (2::rat) powi ?e" by simp
  have "\<bar>of_int ?m - x / 2 powi ?e\<bar> \<le> 1 / 2" by (rule round_even_error)
  then have "\<bar>of_int ?m - x / 2 powi ?e\<bar> * 2 powi ?e \<le> 1 / 2 * 2 powi ?e"
    using pe by (intro mult_right_mono) simp_all
  moreover have "\<bar>of_int ?m - x / 2 powi ?e\<bar> * 2 powi ?e = \<bar>?y - x\<bar>"
  proof -
    have "\<bar>of_int ?m - x / 2 powi ?e\<bar> * 2 powi ?e
          = \<bar>(of_int ?m - x / 2 powi ?e) * 2 powi ?e\<bar>"
      using pe by (simp add: abs_mult)
    also have "(of_int ?m - x / 2 powi ?e) * 2 powi ?e = ?y - x"
      using pe by (simp add: field_simps)
    finally show ?thesis .
  qed
  ultimately have err: "\<bar>?y - x\<bar> \<le> 1 / 2 * 2 powi ?e" by simp
  have "1 / 2 * (2::rat) powi ?e = 2 powi ?b / 2 ^ 53"
  proof -
    have "(2::rat) powi ?e = 2 powi ?b / 2 powi 52" by (rule pow2_diff)
    then show ?thesis by simp
  qed
  also have "\<dots> \<le> x / 2 ^ 53" using lo by (simp add: divide_right_mono)
  finally have "1 / 2 * (2::rat) powi ?e \<le> x / 2 ^ 53" .
  with err have "\<bar>?y - x\<bar> \<le> x / 2 ^ 53" by linarith
  with ev show ?thesis by blast
qed

lemma fl_exact:
  assumes "x = of_int m * 2 powi e" and "\<bar>m\<bar> < 2 ^ 53" and "- 1074 \<le> e" and "e \<le> 971"
  shows "fl x = Fin x"
proof (cases "m = 0")
  case True
  then show ?thesis using assms(1) by (simp add: fl_zero)
next
  case False
  have pe: "0 < (2::rat) powi e" by simp
  have x0: "x \<noteq> 0" using False assms(1) by simp
  let ?a = "\<bar>x\<bar>"
  have a: "?a = of_int \<bar>m\<bar> * 2 powi e" using assms(1) by (simp add: abs_mult)
  have apos: "0 < ?a" using x0 by simp
  let ?b = "binade ?a"
  from binade_bounds [OF apos] have lo: "2 powi ?b \<le> ?a" by simp
  have "(of_int \<bar>m\<bar> :: rat) < of_int (2 ^ 53)" using assms(2) by (simp only: of_int_less_iff)
  then have "?a < 2 powi 53 * 2 powi e"
    unfolding a using pe by (intro mult_strict_right_mono) simp_all
  also have "\<dots> = 2 powi (53 + e)"
    using pow2_add [of 53 e] by simp
  finally have abound: "?a < 2 powi (53 + e)" .
  then have "2 powi ?b < (2::rat) powi (53 + e)" using lo by linarith
  then have "?b < 53 + e" by (rule pow2_less_imp)
  then have be: "?b - 52 \<le> e" by simp
  define e' where "e' = max (?b - 52) (- 1074)"
  have e'e: "e' \<le> e" using be assms(3) by (simp add: e'_def)
  have quot: "?a / 2 powi e' = of_int (\<bar>m\<bar> * 2 ^ nat (e - e'))"
  proof -
    have "(2::rat) powi e = 2 powi (e - e') * 2 powi e'" by (simp flip: pow2_add)
    moreover have "(2::rat) powi (e - e') = 2 ^ nat (e - e')"
      using e'e by (simp add: power_int_def)
    ultimately show ?thesis unfolding a by simp
  qed
  have y: "of_int (round_even (?a / 2 powi e')) * 2 powi e' = ?a"
  proof -
    have "of_int (round_even (?a / 2 powi e')) * (2::rat) powi e' = ?a / 2 powi e' * 2 powi e'"
      unfolding quot round_even_int ..
    then show ?thesis by simp
  qed
  have "(2::rat) powi (53 + e) \<le> 2 powi 1024"
    using assms(4) by (intro power_int_increasing) simp_all
  with abound have small: "\<not> 2 powi 1024 \<le> ?a" by linarith
  show ?thesis
    unfolding fl_def Let_def e'_def [symmetric] y
    using x0 small by (cases "0 < x") auto
qed

lemma fl_of_int: "\<bar>k\<bar> < 2 ^ 53 \<Longrightarrow> fl (of_int k) = Fin (of_int k)"
  by (rule fl_exact [where m = k and e = 0]) simp_all

lemma fl_nonneg:
  assumes "0 \<le> x"
  shows "fl x = PInf \<or> (\<exists>y\<ge>0. fl x = Fin y)"
proof (cases "x = 0")
  case True
  then show ?thesis by (simp add: fl_zero)
next
  case False
  with assms have pos: "0 < x" by simp
  have "0 \<le> round_even (\<bar>x\<bar> / 2 powi e)" for e
    by (rule round_even_nonneg) simp
  then have "0 \<le> (of_int (round_even (\<bar>x\<bar> / 2 powi e)) :: rat) * 2 powi e" for e
    by simp
  then show ?thesis using pos by (auto simp add: fl_def Let_def)
qed

lemma floor_rat_half: "\<lfloor>1 / 2 :: rat\<rfloor> = 0"
  by (simp add: floor_eq_iff)

lemma js_add_int:
  assumes "\<bar>a + b\<bar> < 2 ^ 53"
  shows "js_add (Fin (of_int a)) (Fin (of_int b)) = Fin (of_int (a + b))"
  using fl_of_int [OF assms] by simp

lemma js_sub_int:
  assumes "\<bar>a - b\<bar> < 2 ^ 53"
  shows "js_sub (Fin (of_int a)) (Fin (of_int b)) = Fin (of_int (a - b))"
  using fl_of_int [OF assms] by (simp add: js_sub_def)

lemma js_mul_int:
  assumes "\<bar>a * b\<bar> < 2 ^ 53"
  shows "js_mul (Fin (of_int a)) (Fin (of_int b)) = Fin (of_int (a * b))"
  using fl_of_int [OF assms] by simp

lemma pow2_m1022_le: "(2::rat) powi (- 1022) \<le> 1 / 2 ^ 53"
proof -
  have "(2::rat) powi (- 1022) \<le> 2 powi (- 53)"
    by (intro power_int_increasing) simp_all
  then show ?thesis by simp
qed

lemma pow2_53_le: "(2::rat) ^ 53 \<le> 2 powi 1023"
proof -
  have "(2::rat) powi 53 \<le> 2 powi 1023"
    by (intro power_int_increasing) simp_all
  then show ?thesis by simp
qed

lemma fl_error_mid:
  assumes "1 / 2 ^ 53 \<le> x" and "x < 2 ^ 53"
  shows "\<exists>y. fl x = Fin y \<and> \<bar>y - x\<bar> \<le> x / 2 ^ 53"
proof (rule fl_error)
  show "2 powi (- 1022) \<le> x" by (rule order_trans [OF pow2_m1022_le assms(1)])
  show "x < 2 powi 1023" by (rule less_le_trans [OF assms(2) pow2_53_le])
qed

lemma floor_js_div:
  assumes "0 \<le> T" and "T < 2 ^ 53" and "0 < n" and "int n < 2 ^ 53"
  shows "Math_floor (js_div (Fin (of_int T)) (Fin (of_nat n))) = Fin (of_int (T div int n))"
proof -
  let ?q = "T div int n"
  let ?r = "T mod int n"
  let ?x = "(of_int T :: rat) / of_nat n"
  have npos: "(0::rat) < of_nat n" using assms(3) by simp
  have T: "T = ?q * int n + ?r" by simp
  have q0: "0 \<le> ?q" using assms(1,3) by (simp add: pos_imp_zdiv_nonneg_iff)
  have r0: "0 \<le> ?r" using assms(3) by simp
  have qT: "?q \<le> T"
  proof -
    have "?q * 1 \<le> ?q * int n" using q0 assms(3) by (intro mult_left_mono) simp_all
    then show ?thesis using T r0 by linarith
  qed
  have x: "?x = of_int ?q + of_int ?r / of_nat n"
  proof -
    have "(of_int T :: rat) = of_int (?q * int n + ?r)" by simp
    then have "(of_int T :: rat) = of_int ?q * of_nat n + of_int ?r"
      by (simp only: of_int_add of_int_mult of_int_of_nat_eq)
    then show ?thesis using npos by (simp add: field_simps)
  qed
  have div: "js_div (Fin (of_int T)) (Fin (of_nat n)) = fl ?x"
    using npos by simp
  show ?thesis
  proof (cases "?r = 0")
    case True
    then have "?x = of_int ?q" using x by simp
    moreover have "\<bar>?q\<bar> < 2 ^ 53" using q0 qT assms(2) by linarith
    ultimately show ?thesis unfolding div by (simp add: fl_of_int)
  next
    case False
    have r1: "1 \<le> ?r" using False assms(3) pos_mod_sign [of "int n" T] by linarith
    have r2: "?r \<le> int n - 1" using assms(3) pos_mod_bound [of "int n" T] by linarith
    have rr1: "(1::rat) \<le> of_int ?r" using r1 by simp
    have rr2: "(of_int ?r :: rat) \<le> of_nat n - 1"
    proof -
      have "(of_int ?r :: rat) \<le> of_int (int n - 1)" using r2 by (simp only: of_int_le_iff)
      then show ?thesis by simp
    qed
    have lo: "of_int ?q + 1 / of_nat n \<le> ?x"
      unfolding x using rr1 npos by (simp add: divide_right_mono)
    have hi: "?x \<le> of_int ?q + 1 - 1 / of_nat n"
    proof -
      have "of_int ?r / (of_nat n :: rat) \<le> (of_nat n - 1) / of_nat n"
        using rr2 npos by (simp add: divide_right_mono)
      also have "\<dots> = 1 - 1 / of_nat n" using npos by (simp add: field_simps)
      finally show ?thesis unfolding x by simp
    qed
    have nn: "(of_nat n :: rat) < 2 ^ 53"
    proof -
      have "(of_int (int n) :: rat) < of_int (2 ^ 53)" using assms(4) by (simp only: of_int_less_iff)
      then show ?thesis by simp
    qed
    have TT: "(of_int T :: rat) < 2 ^ 53"
    proof -
      have "(of_int T :: rat) < of_int (2 ^ 53)" using assms(2) by (simp only: of_int_less_iff)
      then show ?thesis by simp
    qed
    have inv: "1 / 2 ^ 53 < 1 / (of_nat n :: rat)"
      using nn npos by (simp add: frac_less2)
    have xlo: "1 / 2 ^ 53 \<le> ?x"
    proof -
      have "(0::rat) \<le> of_int ?q" using q0 by simp
      then show ?thesis using lo inv by linarith
    qed
    have xhi: "?x < 2 ^ 53"
    proof -
      have n1: "(1::rat) \<le> of_nat n" using assms(3) by simp
      have T0: "(0::rat) \<le> of_int T" using assms(1) by simp
      have "?x \<le> of_int T / 1"
        using n1 T0 by (intro divide_left_mono) simp_all
      then show ?thesis using TT by simp
    qed
    from fl_error_mid [OF xlo xhi] obtain y where
      y: "fl ?x = Fin y" "\<bar>y - ?x\<bar> \<le> ?x / 2 ^ 53" by blast
    have small: "?x / 2 ^ 53 < 1 / of_nat n"
    proof -
      have "?x / 2 ^ 53 = (of_int T / 2 ^ 53) / of_nat n" by simp
      also have "\<dots> < 1 / of_nat n"
        using TT npos by (intro divide_strict_right_mono) simp_all
      finally show ?thesis .
    qed
    have "of_int ?q \<le> y" "y < of_int ?q + 1"
      using y(2) small lo hi by linarith+
    then have "\<lfloor>y\<rfloor> = ?q" by (rule floor_unique)
    then show ?thesis unfolding div y(1) by simp
  qed
qed

lemma minor_units_js_div:
  assumes "0 \<le> c" and "c \<le> 2 ^ 50"
  shows "minor_units (js_div (Fin (of_int c)) (Fin 100)) = Some c"
proof (cases "c = 0")
  case True
  then show ?thesis by (simp add: minor_units_def fl_zero floor_rat_half)
next
  case False
  with assms(1) have c1: "1 \<le> c" by simp
  let ?c = "of_int c :: rat"
  have cc1: "1 \<le> ?c" using c1 by simp
  have cc2: "?c \<le> 2 ^ 50"
  proof -
    have "?c \<le> of_int (2 ^ 50)" using assms(2) by (simp only: of_int_le_iff)
    then show ?thesis by simp
  qed
  have cu: "?c / 2 ^ 53 \<le> 1 / 8" using cc2 by simp
  let ?x1 = "?c / 100"
  have "1 / 2 ^ 53 \<le> ?x1" using cc1 by simp
  moreover have "?x1 < 2 ^ 53" using cc2 by simp
  ultimately obtain y1 where y1: "fl ?x1 = Fin y1" "\<bar>y1 - ?x1\<bar> \<le> ?x1 / 2 ^ 53"
    using fl_error_mid by blast
  let ?x2 = "y1 * 100"
  have e1: "\<bar>?x2 - ?c\<bar> \<le> ?c / 2 ^ 53"
  proof -
    have "\<bar>?x2 - ?c\<bar> = \<bar>y1 - ?x1\<bar> * 100" by (simp add: abs_if)
    also have "\<dots> \<le> ?x1 / 2 ^ 53 * 100" using y1(2) by simp
    finally show ?thesis by simp
  qed
  have tiny: "(1::rat) / 2 ^ 53 \<le> 7 / 8" by simp
  have big: "(2::rat) ^ 50 + 1 / 8 < 2 ^ 53" by simp
  have x2lo: "1 / 2 ^ 53 \<le> ?x2" using e1 cu cc1 tiny by linarith
  have x2hi: "?x2 < 2 ^ 53" using e1 cu cc2 big by linarith
  from fl_error_mid [OF x2lo x2hi] obtain y2 where
    y2: "fl ?x2 = Fin y2" "\<bar>y2 - ?x2\<bar> \<le> ?x2 / 2 ^ 53" by blast
  have "?x2 \<le> ?c + 1 / 8" using e1 cu by linarith
  then have "?x2 / 2 ^ 53 \<le> (?c + 1 / 8) / 2 ^ 53" by (simp add: divide_right_mono)
  also have "\<dots> = ?c / 2 ^ 53 + (1 / 8) / 2 ^ 53" by (simp add: add_divide_distrib)
  also have "\<dots> \<le> 1 / 8 + 1 / 8" using cu by (intro add_mono) simp_all
  finally have e2: "\<bar>y2 - ?x2\<bar> \<le> 1 / 4" using y2(2) by linarith
  have "\<bar>y2 - ?c\<bar> \<le> 3 / 8" using e1 e2 cu by linarith
  then have "of_int c \<le> y2 + 1 / 2" "y2 + 1 / 2 < of_int c + 1" by linarith+
  then have fl2: "\<lfloor>y2 + 1 / 2\<rfloor> = c" by (rule floor_unique)
  have d: "js_div (Fin ?c) (Fin 100) = Fin y1"
    using y1(1) by simp
  have m: "js_mul (Fin y1) (Fin 100) = Fin y2"
    using y2(1) by simp
  have r: "Math_round (Fin y2) = Fin (of_int c)"
    by (simp only: Math_round.simps fl2)
  show ?thesis
    unfolding minor_units_def d m r by simp
qed

subsection \<open>The rows of the equal branch\<close>

lemma fl_not_NaN: "fl x \<noteq> NaN"
  by (simp add: fl_def Let_def)

lemma fl_numeral: "(numeral k :: int) < 2 ^ 53 \<Longrightarrow> fl (numeral k) = Fin (numeral k)"
  using fl_of_int [of "numeral k"] by simp

lemma fl_positive:
  assumes "1 / 2 ^ 53 \<le> x" and "x < 2 ^ 53"
  shows "\<exists>y>0. fl x = Fin y"
proof -
  from fl_error_mid [OF assms] obtain y where y: "fl x = Fin y" "\<bar>y - x\<bar> \<le> x / 2 ^ 53" by blast
  have xpos: "0 < x" using assms(1) by (simp add: less_le_trans [of 0 "1 / 2 ^ 53"])
  have "x / 2 ^ 53 < x" using xpos by simp
  with y(2) have "0 < y" by linarith
  with y(1) show ?thesis by blast
qed

lemma js_lt_of: "js_lt (Fin (of_nat i)) (Fin (of_int r)) = (int i < r)"
proof -
  have "(of_nat i :: rat) = of_int (int i)" by simp
  then show ?thesis by (simp only: js_lt.simps of_int_less_iff)
qed

lemma js_neg_neg: "js_neg (js_neg x) = x"
  by (cases x) simp_all

lemma cents_js_div:
  assumes "0 \<le> c" and "c \<le> 2 ^ 50"
  shows "Math_round (js_mul (js_div (Fin (of_int c)) (Fin 100)) (Fin 100)) = Fin (of_int c)"
proof -
  from minor_units_js_div [OF assms]
  have m: "minor_units (js_div (Fin (of_int c)) (Fin 100)) = Some c" .
  show ?thesis
  proof (cases "Math_round (js_mul (js_div (Fin (of_int c)) (Fin 100)) (Fin 100))")
    case (Fin q)
    obtain a where a: "js_mul (js_div (Fin (of_int c)) (Fin 100)) (Fin 100) = Fin a"
      using Fin by (cases "js_mul (js_div (Fin (of_int c)) (Fin 100)) (Fin 100)") simp_all
    then have "q = of_int \<lfloor>a + 1 / 2\<rfloor>" using Fin by simp
    moreover have "\<lfloor>q\<rfloor> = c" using m Fin by (simp add: minor_units_def)
    ultimately have "q = of_int c" by simp
    then show ?thesis using Fin by simp
  qed (use m in \<open>simp_all add: minor_units_def\<close>)
qed

lemma accepted_cents:
  assumes "\<not> isNaN v" and "\<not> js_lt v (Fin 0)" and "minor_units v = Some c"
  shows "0 \<le> c \<and> Math_round (js_mul v (Fin 100)) = Fin (of_int c)"
proof (cases v)
  case (Fin a)
  with assms(2) have a: "0 \<le> a" by simp
  then have "0 \<le> a * 100" by simp
  from fl_nonneg [OF this] show ?thesis
  proof
    assume "fl (a * 100) = PInf"
    with assms(3) Fin show ?thesis by (simp add: minor_units_def)
  next
    assume "\<exists>y\<ge>0. fl (a * 100) = Fin y"
    then obtain y where y: "0 \<le> y" "fl (a * 100) = Fin y" by blast
    have "0 \<le> \<lfloor>y + 1 / 2\<rfloor>" using y(1) by simp
    moreover have "c = \<lfloor>y + 1 / 2\<rfloor>" using assms(3) Fin y(2) by (simp add: minor_units_def)
    ultimately show ?thesis using Fin y(2) by simp
  qed
qed (use assms in \<open>simp_all add: minor_units_def\<close>)

lemma those_map_Some: "those (map (\<lambda>i. Some (f i)) xs) = Some (map f xs)"
  by (induction xs) simp_all

lemma sum_extra: "0 \<le> r \<Longrightarrow> sum_list (map (\<lambda>i. if int i < r then (1::int) else 0) [0..<n]) = min (int n) r"
  by (induction n) auto

lemma count_extra: "0 \<le> r \<Longrightarrow> length (filter (\<lambda>i. int i < r) [0..<n]) = nat (min (int n) r)"
  by (induction n) auto

lemma sum_share_of:
  assumes "0 < n"
  shows "sum_list (map (share_of T n) [0..<n]) = T"
proof -
  have r: "0 \<le> T mod int n" "T mod int n < int n" using assms by simp_all
  have "sum_list (map (share_of T n) [0..<n]) =
        sum_list (map (\<lambda>i. T div int n) [0..<n])
        + sum_list (map (\<lambda>i. if int i < T mod int n then (1::int) else 0) [0..<n])"
    unfolding share_of_def by (simp add: sum_list_addf)
  also have "\<dots> = int n * (T div int n) + T mod int n"
    using r by (simp add: sum_extra sum_list_triv)
  also have "\<dots> = T" by simp
  finally show ?thesis .
qed

lemma share_of_nonneg: "0 \<le> T \<Longrightarrow> 0 \<le> share_of T n i"
  by (simp add: share_of_def pos_imp_zdiv_nonneg_iff div_int_pos_iff)

lemma sum_list_restrict:
  assumes "distinct us" and "distinct ids" and "set ids \<subseteq> set us"
  shows "sum_list (map (\<lambda>u. if u \<in> set ids then c u else (0::int)) us) = sum_list (map c ids)"
proof -
  have "sum_list (map (\<lambda>u. if u \<in> set ids then c u else 0) us)
        = (\<Sum>u\<in>set us. if u \<in> set ids then c u else 0)"
    using assms(1) by (rule sum_list_distinct_conv_sum_set)
  also have "\<dots> = (\<Sum>u\<in>set ids. c u)"
    using assms(3) by (simp add: sum.inter_restrict [symmetric] Int_absorb1)
  also have "\<dots> = sum_list (map c ids)"
    using assms(2) by (rule sum_list_distinct_conv_sum_set [symmetric])
  finally show ?thesis .
qed

lemma parseFloat_empty: "parseFloat [] = NaN"
  by (simp add: parseFloat_def trimStart_def strip_sign_def)

lemma parseFloat_1e_3: "parseFloat ''1e-3'' = fl (1 / 1000)"
  by (simp add: parseFloat_def strip_sign_def trimStart_def isStrWhiteSpaceChar_def
      isDecimalDigit_def exponent_part_def scale10_def)

lemma too_many_decimals_1e_3: "\<not> too_many_decimals ''1e-3''"
  by (simp add: too_many_decimals_def)

lemma tiny_amount:
  "\<exists>y>0. parseFloat ''1e-3'' = Fin y \<and> Math_round (js_mul (Fin y) (Fin 100)) = Fin 0"
proof -
  have lo: "(1::rat) / 2 ^ 53 \<le> 1 / 1000" by simp
  have hi: "(1::rat) / 1000 < 2 ^ 53" by simp
  from fl_error_mid [OF lo hi] obtain y where
    y: "fl (1 / 1000) = Fin y" "\<bar>y - 1 / 1000\<bar> \<le> (1 / 1000) / 2 ^ 53" by blast
  have e: "(1::rat) / 1000 / 2 ^ 53 \<le> 1 / 10000" by simp
  have ypos: "0 < y" and yhi: "y \<le> 2 / 1000" using y(2) e by linarith+
  let ?x = "y * 100"
  have xlo: "1 / 2 ^ 53 \<le> ?x"
  proof -
    have "(1::rat) / 2 ^ 53 \<le> 9 / 100" by simp
    moreover have "9 / 100 \<le> ?x" using y(2) e by linarith
    ultimately show ?thesis by linarith
  qed
  have xhi: "?x < 2 ^ 53"
  proof -
    have "?x \<le> 2 / 10" using yhi by linarith
    moreover have "(2::rat) / 10 < 2 ^ 53" by simp
    ultimately show ?thesis by linarith
  qed
  from fl_error_mid [OF xlo xhi] obtain z where
    z: "fl ?x = Fin z" "\<bar>z - ?x\<bar> \<le> ?x / 2 ^ 53" by blast
  have "?x / 2 ^ 53 \<le> ?x" using ypos by (simp add: field_simps)
  then have "0 \<le> z" "z \<le> 4 / 10" using z(2) yhi ypos by linarith+
  then have "0 \<le> z + 1 / 2" "z + 1 / 2 < 0 + 1" by linarith+
  then have "\<lfloor>z + 1 / 2\<rfloor> = 0" by (simp add: floor_unique del: floor_add floor_add2)
  then have "Math_round (js_mul (Fin y) (Fin 100)) = Fin 0" by (simp add: z(1))
  with ypos y(1) show ?thesis by (auto simp add: parseFloat_1e_3)
qed

lemma rows_user_id:
  "map user_id (map (\<lambda>(i, u). \<lparr>user_id = u, amount = g i\<rparr>) (enumerate 0 ids)) = ids"
proof -
  have "user_id \<circ> (\<lambda>(i, u). \<lparr>user_id = u, amount = g i\<rparr>) = snd"
    by (simp add: fun_eq_iff)
  then show ?thesis by simp
qed

lemma rows_amount:
  "map amount (map (\<lambda>(i, u). \<lparr>user_id = u, amount = g i\<rparr>) (enumerate 0 ids))
   = map g [0..<length ids]"
proof -
  have "amount \<circ> (\<lambda>(i, u). \<lparr>user_id = u, amount = g i\<rparr>) = g \<circ> fst"
    by (simp add: fun_eq_iff)
  then have "map amount (map (\<lambda>(i, u). \<lparr>user_id = u, amount = g i\<rparr>) (enumerate 0 ids))
             = map g (map fst (enumerate 0 ids))"
    by (simp only: map_map)
  then show ?thesis by (simp only: map_fst_enumerate add_0)
qed

lemma equal_rows_user_id: "map user_id (equal_rows t ids) = ids"
  unfolding equal_rows_def Let_def by (rule rows_user_id)

lemma equal_rows_length: "length (equal_rows t ids) = length ids"
  by (metis equal_rows_user_id length_map)

lemma equal_rows_amount_length:
  assumes "length ids' = length ids"
  shows "map amount (equal_rows t ids') = map amount (equal_rows t ids)"
  unfolding equal_rows_def Let_def by (simp only: rows_amount assms)

lemma equal_rows_Fin:
  assumes "ids \<noteq> []" and "0 \<le> T" and "T < 2 ^ 50" and "int (length ids) < 2 ^ 53"
  shows "equal_rows (Fin (of_int T)) ids =
         map (\<lambda>(i, u). \<lparr>user_id = u,
                amount = js_div (Fin (of_int (share_of T (length ids) i))) (Fin 100)\<rparr>)
             (enumerate 0 ids)"
proof -
  let ?n = "length ids"
  let ?q = "T div int ?n"
  let ?r = "T mod int ?n"
  have n: "0 < ?n" using assms(1) by simp
  have T53: "T < 2 ^ 53" using assms(3) by simp
  have q0: "0 \<le> ?q" using assms(2) n by (simp add: pos_imp_zdiv_nonneg_iff)
  have r0: "0 \<le> ?r" using n by simp
  have qn: "?q * int ?n + ?r = T" by simp
  have qnT: "?q * int ?n \<le> T" using qn r0 by linarith
  have qn0: "0 \<le> ?q * int ?n" using q0 by simp
  have qT: "?q \<le> T"
  proof -
    have n1: "1 \<le> int ?n" using assms(1) by (cases ids) simp_all
    have "?q * 1 \<le> ?q * int ?n" by (rule mult_left_mono [OF n1 q0])
    then show ?thesis using qnT by linarith
  qed
  have base: "Math_floor (js_div (Fin (of_int T)) (Fin (of_nat ?n))) = Fin (of_int ?q)"
    by (rule floor_js_div [OF assms(2) T53 n assms(4)])
  have prod: "js_mul (Fin (of_int ?q)) (Fin (of_nat ?n)) = Fin (of_int (?q * int ?n))"
  proof -
    have "\<bar>?q * int ?n\<bar> < 2 ^ 53" using qn0 qnT T53 by linarith
    from js_mul_int [OF this] show ?thesis by simp
  qed
  have rem: "js_sub (Fin (of_int T)) (Fin (of_int (?q * int ?n))) = Fin (of_int ?r)"
  proof -
    have "\<bar>T - ?q * int ?n\<bar> < 2 ^ 53" using qnT assms(2) T53 qn0 by linarith
    from js_sub_int [OF this] have
      "js_sub (Fin (of_int T)) (Fin (of_int (?q * int ?n))) = Fin (of_int (T - ?q * int ?n))" .
    moreover have "T - ?q * int ?n = ?r" using qn by linarith
    ultimately show ?thesis by simp
  qed
  have share: "js_add (Fin (of_int ?q)) (if int i < ?r then Fin 1 else Fin 0)
               = Fin (of_int (share_of T ?n i))" for i
  proof (cases "int i < ?r")
    case True
    have "(2::int) ^ 50 + 1 < 2 ^ 53" by simp
    then have "\<bar>?q + 1\<bar> < 2 ^ 53" using q0 qT assms(3) by linarith
    from js_add_int [OF this] True show ?thesis by (simp add: share_of_def)
  next
    case False
    have "\<bar>?q + 0\<bar> < 2 ^ 53" using q0 qT T53 by linarith
    from js_add_int [OF this] False show ?thesis by (simp add: share_of_def)
  qed
  show ?thesis
    unfolding equal_rows_def Let_def base prod rem js_lt_of share ..
qed

lemma share_of_bounds:
  assumes "0 \<le> T" and "T < 2 ^ 50"
  shows "0 \<le> share_of T n i \<and> share_of T n i \<le> 2 ^ 50"
proof -
  have q0: "0 \<le> T div int n" using assms(1) by (simp add: pos_imp_zdiv_nonneg_iff div_int_pos_iff)
  have "T div int n \<le> T"
  proof (cases "n = 0")
    case True
    then show ?thesis using assms(1) by simp
  next
    case False
    have n1: "1 \<le> int n" using False by simp
    have "T div int n * 1 \<le> T div int n * int n"
      by (rule mult_left_mono [OF n1 q0])
    moreover have "T div int n * int n + T mod int n = T" by simp
    moreover have "0 \<le> T mod int n" using False by simp
    ultimately show ?thesis by linarith
  qed
  then show ?thesis using q0 assms(2) by (simp add: share_of_def)
qed

lemma equal_rows_amount:
  assumes "ids \<noteq> []" and "0 \<le> T" and "T < 2 ^ 50" and "int (length ids) < 2 ^ 53"
  shows "map amount (equal_rows (Fin (of_int T)) ids) =
         map (\<lambda>i. js_div (Fin (of_int (share_of T (length ids) i))) (Fin 100)) [0..<length ids]"
  unfolding equal_rows_Fin [OF assms] by (rule rows_amount)

lemma equal_rows_minor_units:
  assumes "ids \<noteq> []" and "0 \<le> T" and "T < 2 ^ 50" and "int (length ids) < 2 ^ 53"
  shows "map (\<lambda>r. minor_units (amount r)) (equal_rows (Fin (of_int T)) ids) =
         map (\<lambda>i. Some (share_of T (length ids) i)) [0..<length ids]"
proof -
  have mu: "minor_units (js_div (Fin (of_int (share_of T (length ids) i))) (Fin 100))
            = Some (share_of T (length ids) i)" for i
    using share_of_bounds [OF assms(2,3), of "length ids" i] by (simp only: minor_units_js_div)
  have "map (\<lambda>r. minor_units (amount r)) (equal_rows (Fin (of_int T)) ids) =
        map minor_units (map amount (equal_rows (Fin (of_int T)) ids))"
    by simp
  also have "\<dots> = map (\<lambda>i. Some (share_of T (length ids) i)) [0..<length ids]"
    unfolding equal_rows_amount [OF assms] by (simp only: map_map comp_def mu)
  finally show ?thesis .
qed

lemma total_minor_units_equal_rows:
  assumes "ids \<noteq> []" and "0 \<le> T" and "T < 2 ^ 50" and "int (length ids) < 2 ^ 53"
  shows "total_minor_units (equal_rows (Fin (of_int T)) ids) = Some T"
proof -
  have "0 < length ids" using assms(1) by simp
  then show ?thesis
    unfolding total_minor_units_def equal_rows_minor_units [OF assms] those_map_Some
    by (simp add: sum_share_of)
qed

lemma equal_rows_zero:
  assumes "ids \<noteq> []"
  shows "equal_rows (Fin 0) ids = map (\<lambda>u. \<lparr>user_id = u, amount = Fin 0\<rparr>) ids"
proof -
  have n: "(of_nat (length ids) :: rat) \<noteq> 0" using assms by simp
  have lt: "js_lt (Fin (of_nat i)) (Fin 0) = False" for i by simp
  have "equal_rows (Fin 0) ids
        = map (\<lambda>(i, u). \<lparr>user_id = u, amount = Fin 0\<rparr>) (enumerate 0 ids)"
    unfolding equal_rows_def Let_def using n by (simp add: fl_zero js_sub_def)
  also have "\<dots> = map (\<lambda>u. \<lparr>user_id = u, amount = Fin 0\<rparr>) (map snd (enumerate 0 ids))"
    by (simp only: map_map comp_def split_def)
  also have "\<dots> = map (\<lambda>u. \<lparr>user_id = u, amount = Fin 0\<rparr>) ids"
    by (simp only: map_snd_enumerate)
  finally show ?thesis .
qed

lemma totalCents_finite:
  assumes "minor_units (parseFloat (amountInput st)) = Some T"
  shows "totalCents_of st = Fin (of_int T)"
proof (cases "Math_round (js_mul (parseFloat (amountInput st)) (Fin 100))")
  case (Fin q)
  obtain a where a: "js_mul (parseFloat (amountInput st)) (Fin 100) = Fin a"
    using Fin by (cases "js_mul (parseFloat (amountInput st)) (Fin 100)") simp_all
  then have "q = of_int \<lfloor>a + 1 / 2\<rfloor>" using Fin by simp
  moreover have "\<lfloor>q\<rfloor> = T" using assms Fin by (simp add: minor_units_def)
  ultimately have "q = of_int T" by simp
  then show ?thesis using Fin by (simp add: totalCents_of_def)
qed (use assms in \<open>simp_all add: minor_units_def\<close>)

lemma total_nonneg:
  assumes "valid_details st" and "minor_units (parseFloat (amountInput st)) = Some T"
  shows "0 \<le> T"
proof -
  have "\<not> isNaN (parseFloat (amountInput st))" "\<not> js_lt (parseFloat (amountInput st)) (Fin 0)"
    using assms(1)
    by (cases "parseFloat (amountInput st)"; simp add: valid_details_def js_le_def)+
  from accepted_cents [OF this assms(2)] show ?thesis by simp
qed

lemma totalCents_not_NaN:
  assumes "valid_details st"
  shows "\<not> isNaN (totalCents_of st)"
proof (cases "parseFloat (amountInput st)")
  case (Fin a)
  have "fl (a * 100) \<noteq> NaN" by (rule fl_not_NaN)
  then show ?thesis using Fin
    by (cases "fl (a * 100)") (simp_all add: totalCents_of_def)
next
  case NInf
  with assms show ?thesis by (simp add: valid_details_def js_le_def)
qed (use assms in \<open>simp_all add: valid_details_def totalCents_of_def\<close>)

lemma handleSubmit_equal:
  assumes "accepted_input st"
      and "splitType st = equal_all \<or> splitType st = equal_selected"
      and "participantIds_of st \<noteq> []"
  shows "handleSubmit_expense st =
         no_errors\<lparr>splits := Some (equal_rows (totalCents_of st) (participantIds_of st))\<rparr>"
proof -
  have "equal_rows (totalCents_of st) (participantIds_of st) \<noteq> []"
    using assms(3) equal_rows_length [of "totalCents_of st" "participantIds_of st"] by auto
  then show ?thesis
    using assms
    by (auto simp add: handleSubmit_expense_def accepted_input_def valid_details_def
        totalCents_of_def finish_splits_def Let_def)
qed

subsection \<open>The loop of the custom branch\<close>

lemma custom_step_cases:
  "custom_step shares m acc =
     (if share_entry shares m = [] then acc
      else if invalid_share (share_entry shares m) then acc\<lparr>shareError := Some InvalidShare\<rparr>
      else if js_gt (Math_round (js_mul (parseFloat (share_entry shares m)) (Fin 100))) (Fin 0) then
        acc\<lparr>sumCents := js_add (sumCents acc)
                 (Math_round (js_mul (parseFloat (share_entry shares m)) (Fin 100))),
            customSplits := customSplits acc @
              [\<lparr>user_id = userId m,
                amount = js_div (Math_round (js_mul (parseFloat (share_entry shares m)) (Fin 100)))
                           (Fin 100)\<rparr>]\<rparr>
      else acc)"
  by (simp add: custom_step_def share_entry_def invalid_share_def Let_def)

lemma accepted_shares_Cons:
  "accepted_shares shares (m # ms) =
     (if share_entry shares m \<noteq> [] \<and> \<not> invalid_share (share_entry shares m)
      then parseFloat (share_entry shares m) # accepted_shares shares ms
      else accepted_shares shares ms)"
  by (simp add: accepted_shares_def)

lemma accepted_step:
  assumes "share_entry shares m \<noteq> []" and "\<not> invalid_share (share_entry shares m)"
      and "minor_units (parseFloat (share_entry shares m)) = Some c"
  shows "0 \<le> c"
    and "Math_round (js_mul (parseFloat (share_entry shares m)) (Fin 100)) = Fin (of_int c)"
    and "cents_or_zero shares m = c"
proof -
  have ok: "\<not> isNaN (parseFloat (share_entry shares m))"
           "\<not> js_lt (parseFloat (share_entry shares m)) (Fin 0)"
    using assms(1,2) by (auto simp add: invalid_share_def)
  from accepted_cents [OF ok assms(3)]
  show "0 \<le> c"
    and "Math_round (js_mul (parseFloat (share_entry shares m)) (Fin 100)) = Fin (of_int c)"
    by simp_all
  show "cents_or_zero shares m = c"
    using assms by (simp add: cents_or_zero_def)
qed

lemma cents_or_zero_nonneg: "0 \<le> cents_or_zero shares m"
proof (cases "share_entry shares m \<noteq> [] \<and> \<not> invalid_share (share_entry shares m)")
  case True
  show ?thesis
  proof (cases "minor_units (parseFloat (share_entry shares m))")
    case None
    then show ?thesis by (simp add: cents_or_zero_def)
  next
    case (Some c)
    from accepted_step [OF _ _ Some] True show ?thesis by simp
  qed
next
  case False
  then show ?thesis by (auto simp add: cents_or_zero_def)
qed

lemma sum_cents_nonneg: "0 \<le> sum_list (map (cents_or_zero shares) ms)"
  by (rule sum_list_nonneg) (auto simp add: cents_or_zero_nonneg)

lemma sumCents_step:
  assumes "share_entry shares m \<noteq> [] \<and> \<not> invalid_share (share_entry shares m)
             \<longrightarrow> minor_units (parseFloat (share_entry shares m)) \<noteq> None"
      and "sumCents acc = Fin (of_int s)" and "0 \<le> s"
      and "s + cents_or_zero shares m < 2 ^ 53"
  shows "sumCents (custom_step shares m acc) = Fin (of_int (s + cents_or_zero shares m))"
proof (cases "share_entry shares m \<noteq> [] \<and> \<not> invalid_share (share_entry shares m)")
  case True
  with assms(1) obtain c where c: "minor_units (parseFloat (share_entry shares m)) = Some c"
    by auto
  from True have t: "share_entry shares m \<noteq> []" "\<not> invalid_share (share_entry shares m)"
    by simp_all
  note st = accepted_step [OF t c]
  show ?thesis
  proof (cases "0 < c")
    case pos: True
    have "\<bar>s + c\<bar> < 2 ^ 53" using assms(3,4) st(1,3) by linarith
    from js_add_int [OF this] pos t show ?thesis
      by (simp add: custom_step_cases st(2,3) assms(2) js_gt_def)
  next
    case False
    with st(1) have "c = 0" by simp
    then show ?thesis using t
      by (simp add: custom_step_cases st(2,3) assms(2) js_gt_def)
  qed
next
  case False
  then show ?thesis
    using assms(2) by (auto simp add: custom_step_cases cents_or_zero_def)
qed

lemma fold_custom_step_sum:
  assumes "\<forall>m\<in>set ms. share_entry shares m \<noteq> [] \<and> \<not> invalid_share (share_entry shares m)
             \<longrightarrow> minor_units (parseFloat (share_entry shares m)) \<noteq> None"
      and "sumCents acc = Fin (of_int s)" and "0 \<le> s"
      and "s + sum_list (map (cents_or_zero shares) ms) < 2 ^ 53"
  shows "sumCents (fold (custom_step shares) ms acc)
         = Fin (of_int (s + sum_list (map (cents_or_zero shares) ms)))"
  using assms
proof (induction ms arbitrary: acc s)
  case Nil
  then show ?case by simp
next
  case (Cons m ms)
  let ?c = "cents_or_zero shares m"
  have c0: "0 \<le> ?c" by (rule cents_or_zero_nonneg)
  have r0: "0 \<le> sum_list (map (cents_or_zero shares) ms)" by (rule sum_cents_nonneg)
  have bound: "s + ?c + sum_list (map (cents_or_zero shares) ms) < 2 ^ 53"
    using Cons.prems(4) by simp
  have here: "share_entry shares m \<noteq> [] \<and> \<not> invalid_share (share_entry shares m)
             \<longrightarrow> minor_units (parseFloat (share_entry shares m)) \<noteq> None"
    using Cons.prems(1) by simp
  have rest: "\<forall>m\<in>set ms. share_entry shares m \<noteq> [] \<and> \<not> invalid_share (share_entry shares m)
             \<longrightarrow> minor_units (parseFloat (share_entry shares m)) \<noteq> None"
    using Cons.prems(1) by simp
  have "s + ?c < 2 ^ 53" using bound r0 by linarith
  from sumCents_step [OF here Cons.prems(2,3) this]
  have step: "sumCents (custom_step shares m acc) = Fin (of_int (s + ?c))" .
  have s0: "0 \<le> s + ?c" using Cons.prems(3) c0 by simp
  from Cons.IH [OF rest step s0 bound]
  show ?case by (simp add: add.assoc)
qed

lemma custom_loop_sum:
  assumes "\<forall>m\<in>set ms. share_entry shares m \<noteq> [] \<and> \<not> invalid_share (share_entry shares m)
             \<longrightarrow> minor_units (parseFloat (share_entry shares m)) \<noteq> None"
      and "sum_list (map (cents_or_zero shares) ms) < 2 ^ 53"
  shows "sumCents (custom_loop shares ms) = Fin (of_int (sum_list (map (cents_or_zero shares) ms)))"
proof -
  let ?init = "\<lparr>sumCents = Fin 0, customSplits = [], shareError = None\<rparr>"
  have i: "sumCents ?init = Fin (of_int 0)" by simp
  have b: "0 + sum_list (map (cents_or_zero shares) ms) < 2 ^ 53" using assms(2) by simp
  from fold_custom_step_sum [OF assms(1) i _ b] show ?thesis
    by (simp add: custom_loop_def)
qed

lemma accepted_minor_units_sum:
  assumes "accepted_minor_units shares ms = Some cs"
  shows "sum_list cs = sum_list (map (cents_or_zero shares) ms)
         \<and> (\<forall>m\<in>set ms. share_entry shares m \<noteq> [] \<and> \<not> invalid_share (share_entry shares m)
               \<longrightarrow> minor_units (parseFloat (share_entry shares m)) \<noteq> None)"
  using assms
proof (induction ms arbitrary: cs)
  case Nil
  then show ?case by (simp add: accepted_minor_units_def accepted_shares_def)
next
  case (Cons m ms)
  show ?case
  proof (cases "share_entry shares m \<noteq> [] \<and> \<not> invalid_share (share_entry shares m)")
    case True
    then have t: "share_entry shares m \<noteq> []" "\<not> invalid_share (share_entry shares m)"
      by simp_all
    from Cons.prems True obtain c cs' where
      c: "minor_units (parseFloat (share_entry shares m)) = Some c"
      and cs': "accepted_minor_units shares ms = Some cs'" and cs: "cs = c # cs'"
      by (auto simp add: accepted_minor_units_def accepted_shares_Cons split: option.splits)
    from Cons.IH [OF cs'] accepted_step(3) [OF t c] c cs show ?thesis by simp
  next
    case False
    then have "accepted_minor_units shares ms = Some cs"
      using Cons.prems by (auto simp add: accepted_minor_units_def accepted_shares_Cons)
    from Cons.IH [OF this] False show ?thesis by (auto simp add: cents_or_zero_def)
  qed
qed

lemma shareError_step:
  "shareError (custom_step shares m acc) =
     (if invalid_share (share_entry shares m) then Some InvalidShare else shareError acc)"
  by (simp add: custom_step_cases invalid_share_def)

lemma customSplits_step:
  assumes "customSplits acc = [] \<longrightarrow> sumCents acc = Fin 0"
  shows "customSplits (custom_step shares m acc) = []
         \<longrightarrow> sumCents (custom_step shares m acc) = Fin 0"
  using assms by (simp add: custom_step_cases)

lemma fold_custom_step_error:
  "shareError (fold (custom_step shares) ms acc) =
   (if \<exists>m\<in>set ms. invalid_share (share_entry shares m) then Some InvalidShare
    else shareError acc)"
proof (induction ms arbitrary: acc)
  case Nil
  show ?case by simp
next
  case (Cons m ms)
  have "shareError (fold (custom_step shares) (m # ms) acc)
        = (if \<exists>m\<in>set ms. invalid_share (share_entry shares m) then Some InvalidShare
           else shareError (custom_step shares m acc))"
    by (simp only: fold_simps Cons.IH)
  then show ?case by (simp add: shareError_step)
qed

lemma custom_loop_error:
  "shareError (custom_loop shares ms) =
   (if \<exists>m\<in>set ms. invalid_share (share_entry shares m) then Some InvalidShare else None)"
  by (simp add: custom_loop_def fold_custom_step_error)

lemma fold_custom_step_nonempty:
  assumes "customSplits acc = [] \<longrightarrow> sumCents acc = Fin 0"
  shows "customSplits (fold (custom_step shares) ms acc) = []
         \<longrightarrow> sumCents (fold (custom_step shares) ms acc) = Fin 0"
  using assms
proof (induction ms arbitrary: acc)
  case Nil
  then show ?case by simp
next
  case (Cons m ms)
  from Cons.IH [OF customSplits_step [OF Cons.prems]] show ?case
    by (simp only: fold_simps)
qed

lemma custom_loop_nonempty:
  assumes "sumCents (custom_loop shares ms) \<noteq> Fin 0"
  shows "customSplits (custom_loop shares ms) \<noteq> []"
proof -
  let ?init = "\<lparr>sumCents = Fin 0, customSplits = [], shareError = None\<rparr>"
  have "customSplits ?init = [] \<longrightarrow> sumCents ?init = Fin 0" by simp
  from fold_custom_step_nonempty [OF this] assms show ?thesis
    unfolding custom_loop_def by blast
qed

lemma handleSubmit_custom:
  assumes "accepted_input st" and "splitType st = custom"
  shows "handleSubmit_expense st =
         (let acc = custom_loop (customShares st) (members st);
              r = no_errors\<lparr>splitError := shareError acc\<rparr>
          in if sumCents acc \<noteq> totalCents_of st then r\<lparr>splitError := Some TotalMismatch\<rparr>
             else if customSplits acc = [] then r\<lparr>splitError := Some EmptyCustomSet\<rparr>
             else r\<lparr>splits := Some (customSplits acc)\<rparr>)"
proof -
  have ne: "js_strict_ne x (totalCents_of st) = (x \<noteq> totalCents_of st)" for x
    using totalCents_not_NaN [of st] assms(1)
    by (cases x) (auto simp add: js_strict_ne_def accepted_input_def)
  show ?thesis
    using assms
    by (auto simp add: handleSubmit_expense_def accepted_input_def valid_details_def
        ne [unfolded totalCents_of_def] totalCents_of_def finish_splits_def Let_def)
qed

lemma positive_rows_Cons:
  "positive_rows shares (m # ms) = positive_rows shares [m] @ positive_rows shares ms"
  by (simp add: positive_rows_def)

lemma customSplits_step_rows:
  "customSplits (custom_step shares m acc) = customSplits acc @ positive_rows shares [m]"
  by (simp add: custom_step_cases positive_rows_def)

lemma fold_custom_step_rows:
  "customSplits (fold (custom_step shares) ms acc) = customSplits acc @ positive_rows shares ms"
proof (induction ms arbitrary: acc)
  case Nil
  show ?case by (simp add: positive_rows_def)
next
  case (Cons m ms)
  have "customSplits (fold (custom_step shares) (m # ms) acc)
        = customSplits (custom_step shares m acc) @ positive_rows shares ms"
    by (simp only: fold_simps Cons.IH)
  also have "\<dots> = customSplits acc @ positive_rows shares (m # ms)"
    by (simp only: customSplits_step_rows positive_rows_Cons [of shares m ms] append_assoc)
  finally show ?case .
qed

lemma custom_loop_rows: "customSplits (custom_loop shares ms) = positive_rows shares ms"
  by (simp add: custom_loop_def fold_custom_step_rows)

lemma total_minor_units_Cons:
  "total_minor_units (r # rs) =
     (case minor_units (amount r) of
        None \<Rightarrow> None
      | Some c \<Rightarrow> map_option (\<lambda>s. c + s) (total_minor_units rs))"
  by (cases "those (map (\<lambda>r. minor_units (amount r)) rs)")
     (simp_all add: total_minor_units_def split: option.splits)

lemma total_minor_units_positive_rows:
  assumes "\<forall>m\<in>set ms. share_entry shares m \<noteq> [] \<and> \<not> invalid_share (share_entry shares m)
             \<longrightarrow> minor_units (parseFloat (share_entry shares m)) \<noteq> None"
      and "\<forall>m\<in>set ms. cents_or_zero shares m \<le> 2 ^ 50"
  shows "total_minor_units (positive_rows shares ms)
         = Some (sum_list (map (cents_or_zero shares) ms))"
  using assms
proof (induction ms)
  case Nil
  show ?case by (simp add: positive_rows_def total_minor_units_def)
next
  case (Cons m ms)
  let ?c = "cents_or_zero shares m"
  have rest: "total_minor_units (positive_rows shares ms)
              = Some (sum_list (map (cents_or_zero shares) ms))"
    using Cons by simp
  have le: "?c \<le> 2 ^ 50" using Cons.prems(2) by simp
  show ?case
  proof (cases "share_entry shares m \<noteq> [] \<and> \<not> invalid_share (share_entry shares m)")
    case True
    then have t: "share_entry shares m \<noteq> []" "\<not> invalid_share (share_entry shares m)"
      by simp_all
    with Cons.prems(1) obtain c where
      c: "minor_units (parseFloat (share_entry shares m)) = Some c" by auto
    note st = accepted_step [OF t c]
    show ?thesis
    proof (cases "0 < c")
      case pos: True
      have row: "positive_rows shares [m]
                 = [\<lparr>user_id = userId m, amount = js_div (Fin (of_int c)) (Fin 100)\<rparr>]"
        using t pos by (simp add: positive_rows_def st(2) js_gt_def)
      have "minor_units (js_div (Fin (of_int c)) (Fin 100)) = Some c"
        using st(1,3) le by (simp only: minor_units_js_div)
      then show ?thesis
        using rest st(3)
        by (simp add: positive_rows_Cons [of shares m ms] row total_minor_units_Cons)
    next
      case False
      with st(1) have z: "c = 0" by simp
      have "positive_rows shares [m] = []"
        using t z by (simp add: positive_rows_def st(2) js_gt_def)
      then show ?thesis
        using rest st(3) z by (simp add: positive_rows_Cons [of shares m ms])
    qed
  next
    case False
    then have "positive_rows shares [m] = []" by (auto simp add: positive_rows_def)
    moreover have "?c = 0" using False by (auto simp add: cents_or_zero_def)
    ultimately show ?thesis using rest by (simp add: positive_rows_Cons [of shares m ms])
  qed
qed

lemma handleSubmit_credit_ok:
  assumes "accepted_input st" and "paidBy st \<noteq> []" and "paidTo st \<noteq> []"
      and "paidBy st \<noteq> paidTo st"
  shows "handleSubmit_credit st (Inserted eid) =
         no_credit_errors\<lparr>credit_splits := Some
           [\<lparr>user_id = paidBy st, amount = js_neg (parseFloat (amountInput st)), expense_id = eid\<rparr>,
            \<lparr>user_id = paidTo st, amount = parseFloat (amountInput st), expense_id = eid\<rparr>]\<rparr>"
  using assms
  by (auto simp add: handleSubmit_credit_def accepted_input_def valid_details_def Let_def)

subsection \<open>Values at the inputs used below\<close>

text \<open>
  The doubles that arise at the concrete submissions of the next section, each obtained
  from the binade of the exact value.
\<close>

lemma floor_rat_numeral_div: "\<lfloor>numeral a / numeral b :: rat\<rfloor> = numeral a div numeral b"
  by (metis floor_divide_of_int_eq of_int_numeral)

lemma fl_eval_at:
  assumes "0 < x" and "2 powi b \<le> x" and "x < 2 powi (b + 1)"
      and "- 1022 \<le> b" and "b \<le> 1022"
      and "of_int (round_even (x / 2 powi (b - 52))) * 2 powi (b - 52) = y"
  shows "fl x = Fin y"
  using fl_eval [OF assms(1-5)] assms(6) by simp

lemma isNaN_fl: "isNaN (fl x) = False"
  using fl_not_NaN [of x] by (cases "fl x") simp_all

lemma js_le_fl_positive:
  assumes "1 / 2 ^ 53 \<le> x" and "x < 2 ^ 53"
  shows "js_le (fl x) (Fin 0) = False"
  using fl_positive [OF assms] by (auto simp add: js_le_def)

lemma js_lt_fl_nonneg:
  assumes "0 \<le> x"
  shows "js_lt (fl x) (Fin 0) = False"
  using fl_nonneg [OF assms] by auto

lemma minor_units_parse:
  assumes "parseFloat s = js_div (Fin (of_int c)) (Fin 100)" and "0 \<le> c" and "c \<le> 2 ^ 50"
  shows "minor_units (parseFloat s) = Some c"
  unfolding assms(1) by (rule minor_units_js_div [OF assms(2,3)])

lemmas parse_defs = parseFloat_def strip_sign_def trimStart_def trim_def isStrWhiteSpaceChar_def
  isDecimalDigit_def exponent_part_def scale10_def

lemmas form_defs = submission_def credit_submission_def member_of_def accepted_input_def
  valid_details_def trim_def isStrWhiteSpaceChar_def descriptionPattern_test_def
  isDescriptionChar_def too_many_decimals_def participantIds_of_def

lemmas handler_defs = handleSubmit_expense_def no_errors_def custom_loop_def custom_step_def
  finish_splits_def js_le_def js_gt_def js_strict_ne_def Let_def

lemma parse_10: "parseFloat ''10'' = Fin 10"
  by (simp add: parse_defs fl_numeral)

lemma parse_10_00: "parseFloat ''10.00'' = Fin 10"
  by (simp add: parse_defs fl_numeral)

lemma parse_5: "parseFloat ''5'' = Fin 5"
  by (simp add: parse_defs fl_numeral)

lemma parse_0: "parseFloat ''0'' = Fin 0"
  by (simp add: parse_defs fl_zero)

lemma parse_m5: "parseFloat ''-5'' = Fin (- 5)"
  using fl_neg [of 5] by (simp add: parse_defs fl_numeral)

lemma parse_abc: "parseFloat ''abc'' = NaN"
  by (simp add: parse_defs)

lemma parse_25_50: "parseFloat ''25.50'' = Fin (51 / 2)"
proof -
  have "fl (51 / 2) = Fin (51 / 2)"
    by (rule fl_exact [where m = 51 and e = "- 1"]) simp_all
  then show ?thesis by (simp add: parse_defs)
qed

lemma fl_big94: "fl (9007199254740994 / 100) = Fin (1441151880758559 / 16)"
  by (rule fl_eval_at [where b = 46]) (simp_all add: round_even_def floor_rat_numeral_div)

lemma parse_big94: "parseFloat ''90071992547409.94'' = Fin (1441151880758559 / 16)"
  using fl_big94 by (simp add: parse_defs)

lemma mul_big94: "js_mul (Fin (1441151880758559 / 16)) (Fin 100) = Fin 9007199254740994"
  unfolding js_mul.simps
  by (rule fl_eval_at [where b = 53]) (simp_all add: round_even_def floor_rat_numeral_div)

lemma div_big_3: "js_div (Fin 9007199254740994) (Fin 3) = Fin (6004799503160663 / 2)"
proof -
  have "fl (9007199254740994 / 3) = Fin (6004799503160663 / 2)"
    by (rule fl_eval_at [where b = 51]) (simp_all add: round_even_def floor_rat_numeral_div)
  moreover have "(3::rat) \<noteq> 0" by simp
  ultimately show ?thesis by (simp only: js_div.simps if_False)
qed

lemma mul_base_3: "js_mul (Fin 3002399751580331) (Fin 3) = Fin 9007199254740992"
  unfolding js_mul.simps
  by (rule fl_eval_at [where b = 53]) (simp_all add: round_even_def floor_rat_numeral_div)

lemma div_share1: "js_div (Fin 3002399751580332) (Fin 100) = Fin (3843071682022825 / 128)"
proof -
  have "fl (3002399751580332 / 100) = Fin (3843071682022825 / 128)"
    by (rule fl_eval_at [where b = 44]) (simp_all add: round_even_def floor_rat_numeral_div)
  moreover have "(100::rat) \<noteq> 0" by simp
  ultimately show ?thesis by (simp only: js_div.simps if_False)
qed

lemma div_share0: "js_div (Fin 3002399751580331) (Fin 100) = Fin (7686143364045647 / 256)"
proof -
  have "fl (3002399751580331 / 100) = Fin (7686143364045647 / 256)"
    by (rule fl_eval_at [where b = 44]) (simp_all add: round_even_def floor_rat_numeral_div)
  moreover have "(100::rat) \<noteq> 0" by simp
  ultimately show ?thesis by (simp only: js_div.simps if_False)
qed

lemma mul_share1: "js_mul (Fin (3843071682022825 / 128)) (Fin 100) = Fin 3002399751580332"
  unfolding js_mul.simps
  by (rule fl_eval_at [where b = 51]) (simp_all add: round_even_def floor_rat_numeral_div)

lemma mul_share0: "js_mul (Fin (7686143364045647 / 256)) (Fin 100) = Fin 3002399751580331"
  unfolding js_mul.simps
  by (rule fl_eval_at [where b = 51]) (simp_all add: round_even_def floor_rat_numeral_div)

lemma fl_big96: "fl (9007199254740996 / 100) = Fin (5764607523034237 / 64)"
  by (rule fl_eval_at [where b = 46]) (simp_all add: round_even_def floor_rat_numeral_div)

lemma parse_big96: "parseFloat ''90071992547409.96'' = Fin (5764607523034237 / 64)"
  using fl_big96 by (simp add: parse_defs)

lemma mul_big96: "js_mul (Fin (5764607523034237 / 64)) (Fin 100) = Fin 9007199254740996"
  unfolding js_mul.simps
  by (rule fl_eval_at [where b = 53]) (simp_all add: round_even_def floor_rat_numeral_div)

lemma fl_cent: "fl (1 / 100) = Fin (5764607523034235 / 576460752303423488)"
  by (rule fl_eval_at [where b = "- 7"]) (simp_all add: round_even_def floor_rat_numeral_div)

lemma parse_cent: "parseFloat ''0.01'' = Fin (5764607523034235 / 576460752303423488)"
  using fl_cent by (simp add: parse_defs)

lemma mul_cent: "js_mul (Fin (5764607523034235 / 576460752303423488)) (Fin 100) = Fin 1"
  unfolding js_mul.simps
  by (rule fl_eval_at [where b = 0]) (simp_all add: round_even_def floor_rat_numeral_div)

lemma add_big_1: "js_add (Fin 9007199254740994) (Fin 1) = Fin 9007199254740996"
  unfolding js_add.simps
  by (rule fl_eval_at [where b = 53]) (simp_all add: round_even_def floor_rat_numeral_div)

lemma div_big_100: "js_div (Fin 9007199254740994) (Fin 100) = Fin (1441151880758559 / 16)"
proof -
  have "fl (9007199254740994 / 100) = Fin (1441151880758559 / 16)"
    by (rule fl_eval_at [where b = 46]) (simp_all add: round_even_def floor_rat_numeral_div)
  moreover have "(100::rat) \<noteq> 0" by simp
  ultimately show ?thesis by (simp only: js_div.simps if_False)
qed

lemma div_1_100: "js_div (Fin 1) (Fin 100) = Fin (5764607523034235 / 576460752303423488)"
proof -
  have "fl (1 / 100) = Fin (5764607523034235 / 576460752303423488)"
    by (rule fl_eval_at [where b = "- 7"]) (simp_all add: round_even_def floor_rat_numeral_div)
  moreover have "(100::rat) \<noteq> 0" by simp
  ultimately show ?thesis by (simp only: js_div.simps if_False)
qed

lemma fl_share1: "fl (3002399751580332 / 100) = Fin (3843071682022825 / 128)"
  by (rule fl_eval_at [where b = 44]) (simp_all add: round_even_def floor_rat_numeral_div)

lemma parse_share1: "parseFloat ''30023997515803.32'' = Fin (3843071682022825 / 128)"
  using fl_share1 by (simp add: parse_defs)

lemma fl_share0: "fl (3002399751580331 / 100) = Fin (7686143364045647 / 256)"
  by (rule fl_eval_at [where b = 44]) (simp_all add: round_even_def floor_rat_numeral_div)

lemma parse_share0: "parseFloat ''30023997515803.31'' = Fin (7686143364045647 / 256)"
  using fl_share0 by (simp add: parse_defs)

lemma add_share1_share1: "js_add (Fin 3002399751580332) (Fin 3002399751580332) = Fin 6004799503160664"
  unfolding js_add.simps
  by (rule fl_eval_at [where b = 52]) (simp_all add: round_even_def floor_rat_numeral_div)

lemma add_sum_share0: "js_add (Fin 6004799503160664) (Fin 3002399751580331) = Fin 9007199254740996"
  unfolding js_add.simps
  by (rule fl_eval_at [where b = 53]) (simp_all add: round_even_def floor_rat_numeral_div)

lemma fl_3_34: "fl (334 / 100) = Fin (940126422213591 / 281474976710656)"
  by (rule fl_eval_at [where b = 1]) (simp_all add: round_even_def floor_rat_numeral_div)

lemma parse_3_34: "parseFloat ''3.34'' = Fin (940126422213591 / 281474976710656)"
  using fl_3_34 by (simp add: parse_defs)

lemma div_334_100: "js_div (Fin 334) (Fin 100) = Fin (940126422213591 / 281474976710656)"
proof -
  have "fl (334 / 100) = Fin (940126422213591 / 281474976710656)"
    by (rule fl_eval_at [where b = 1]) (simp_all add: round_even_def floor_rat_numeral_div)
  moreover have "(100::rat) \<noteq> 0" by simp
  ultimately show ?thesis by (simp only: js_div.simps if_False)
qed

lemma fl_3_33: "fl (333 / 100) = Fin (1874623344892969 / 562949953421312)"
  by (rule fl_eval_at [where b = 1]) (simp_all add: round_even_def floor_rat_numeral_div)

lemma parse_3_33: "parseFloat ''3.33'' = Fin (1874623344892969 / 562949953421312)"
  using fl_3_33 by (simp add: parse_defs)

lemma div_333_100: "js_div (Fin 333) (Fin 100) = Fin (1874623344892969 / 562949953421312)"
proof -
  have "fl (333 / 100) = Fin (1874623344892969 / 562949953421312)"
    by (rule fl_eval_at [where b = 1]) (simp_all add: round_even_def floor_rat_numeral_div)
  moreover have "(100::rat) \<noteq> 0" by simp
  ultimately show ?thesis by (simp only: js_div.simps if_False)
qed

lemma equal_rows_big:
  "equal_rows (Fin 9007199254740994) [''A'', ''B'', ''C''] =
     [\<lparr>user_id = ''A'', amount = Fin (3843071682022825 / 128)\<rparr>,
      \<lparr>user_id = ''B'', amount = Fin (3843071682022825 / 128)\<rparr>,
      \<lparr>user_id = ''C'', amount = Fin (7686143364045647 / 256)\<rparr>]"
proof -
  have base: "Math_floor (js_div (Fin 9007199254740994) (Fin 3)) = Fin 3002399751580331"
    by (simp add: div_big_3 floor_rat_numeral_div del: js_div.simps)
  have rem: "js_sub (Fin 9007199254740994) (js_mul (Fin 3002399751580331) (Fin 3)) = Fin 2"
    by (simp add: mul_base_3 js_sub_def fl_numeral del: js_mul.simps)
  have s1: "js_add (Fin 3002399751580331) (Fin 1) = Fin 3002399751580332"
    by (simp add: fl_numeral)
  have s0: "js_add (Fin 3002399751580331) (Fin 0) = Fin 3002399751580331"
    by (simp add: fl_numeral)
  have count: "Fin (of_nat (length [''A'', ''B'', ''C''])) = Fin 3" by simp
  show ?thesis
    unfolding equal_rows_def Let_def count base rem
    by (simp add: s1 s0 div_share1 div_share0 del: js_add.simps js_div.simps)
qed

lemma minor_units_share1: "minor_units (Fin (3843071682022825 / 128)) = Some 3002399751580332"
  by (simp add: minor_units_def mul_share1 floor_rat_numeral_div del: js_mul.simps)

lemma minor_units_share0: "minor_units (Fin (7686143364045647 / 256)) = Some 3002399751580331"
  by (simp add: minor_units_def mul_share0 floor_rat_numeral_div del: js_mul.simps)

lemma totalCents_big94: "Math_round (js_mul (Fin (1441151880758559 / 16)) (Fin 100)) = Fin 9007199254740994"
  by (simp add: mul_big94 floor_rat_numeral_div del: js_mul.simps)

lemma totalCents_big96: "Math_round (js_mul (Fin (5764607523034237 / 64)) (Fin 100)) = Fin 9007199254740996"
  by (simp add: mul_big96 floor_rat_numeral_div del: js_mul.simps)

lemma cents_cent: "Math_round (js_mul (Fin (5764607523034235 / 576460752303423488)) (Fin 100)) = Fin 1"
  by (simp add: mul_cent floor_rat_numeral_div floor_rat_half del: js_mul.simps)

lemma cents_share1: "Math_round (js_mul (Fin (3843071682022825 / 128)) (Fin 100)) = Fin 3002399751580332"
  by (simp add: mul_share1 floor_rat_numeral_div del: js_mul.simps)

lemma cents_share0: "Math_round (js_mul (Fin (7686143364045647 / 256)) (Fin 100)) = Fin 3002399751580331"
  by (simp add: mul_share0 floor_rat_numeral_div del: js_mul.simps)

lemma add_0_big: "js_add (Fin 0) (Fin 9007199254740994) = Fin 9007199254740994"
proof -
  have "fl 9007199254740994 = Fin 9007199254740994"
    by (rule fl_exact [where m = 4503599627370497 and e = 1]) simp_all
  then show ?thesis by simp
qed

lemma add_0_share1: "js_add (Fin 0) (Fin 3002399751580332) = Fin 3002399751580332"
  by (simp add: fl_numeral)

lemma length_bound:
  assumes "n < (2::nat) ^ 32"
  shows "int n < 2 ^ 53"
proof -
  have "int n < int (2 ^ 32)" using assms by (simp only: of_nat_less_iff)
  then show ?thesis by simp
qed

lemma js_div_100: "js_div (Fin a) (Fin 100) = fl (a / 100)"
  by simp

lemma parsed_cents:
  assumes "parseFloat s = js_div (Fin (of_int c)) (Fin 100)" and "0 \<le> c" and "c \<le> 2 ^ 50"
  shows "minor_units (parseFloat s) = Some c"
    and "isNaN (parseFloat s) = False"
    and "js_lt (parseFloat s) (Fin 0) = False"
    and "Math_round (js_mul (parseFloat s) (Fin 100)) = Fin (of_int c)"
proof -
  have p: "parseFloat s = fl (of_int c / 100)" by (simp only: assms(1) js_div_100)
  show "minor_units (parseFloat s) = Some c" by (rule minor_units_parse [OF assms])
  show "isNaN (parseFloat s) = False" by (simp only: p isNaN_fl)
  have "(0::rat) \<le> of_int c / 100" using assms(2) by simp
  then show "js_lt (parseFloat s) (Fin 0) = False" by (simp only: p js_lt_fl_nonneg)
  show "Math_round (js_mul (parseFloat s) (Fin 100)) = Fin (of_int c)"
    by (simp only: assms(1) cents_js_div [OF assms(2,3)])
qed

lemma parsed_positive:
  assumes "parseFloat s = js_div (Fin (of_int c)) (Fin 100)" and "0 < c" and "c \<le> 2 ^ 50"
  shows "js_le (parseFloat s) (Fin 0) = False"
proof -
  have p: "parseFloat s = fl (of_int c / 100)" by (simp only: assms(1) js_div_100)
  have c1: "(1::rat) \<le> of_int c" using assms(2) by linarith
  have "(1::rat) / 2 ^ 53 \<le> 1 / 100" by simp
  also have "\<dots> \<le> of_int c / 100" using c1 by simp
  finally have lo: "(1::rat) / 2 ^ 53 \<le> of_int c / 100" .
  have "(of_int c :: rat) \<le> of_int (2 ^ 50)" using assms(3) by (simp only: of_int_le_iff)
  then have "(of_int c :: rat) \<le> 2 ^ 50" by simp
  then have hi: "(of_int c :: rat) / 100 < 2 ^ 53" by simp
  show ?thesis by (simp only: p js_le_fl_positive [OF lo hi])
qed

lemma accepted_minor_units_exists:
  assumes "\<forall>m\<in>set ms. share_entry shares m \<noteq> [] \<and> \<not> invalid_share (share_entry shares m)
             \<longrightarrow> minor_units (parseFloat (share_entry shares m)) \<noteq> None"
  shows "\<exists>cs. accepted_minor_units shares ms = Some cs"
  using assms
proof (induction ms)
  case Nil
  show ?case by (simp add: accepted_minor_units_def accepted_shares_def)
next
  case (Cons m ms)
  then obtain cs where cs: "accepted_minor_units shares ms = Some cs" by auto
  show ?case
  proof (cases "share_entry shares m \<noteq> [] \<and> \<not> invalid_share (share_entry shares m)")
    case True
    with Cons.prems obtain c where "minor_units (parseFloat (share_entry shares m)) = Some c"
      by auto
    with True cs show ?thesis
      by (auto simp add: accepted_minor_units_def accepted_shares_Cons)
  next
    case False
    with cs show ?thesis by (auto simp add: accepted_minor_units_def accepted_shares_Cons)
  qed
qed

lemma parse_100_01: "parseFloat ''100.01'' = js_div (Fin (of_int 10001)) (Fin 100)"
  by (simp add: parse_defs)

lemma parse_2_50: "parseFloat ''2.50'' = js_div (Fin (of_int 250)) (Fin 100)"
  by (simp add: parse_defs)

lemma parse_7_49: "parseFloat ''7.49'' = js_div (Fin (of_int 749)) (Fin 100)"
  by (simp add: parse_defs)

lemma parse_7_50: "parseFloat ''7.50'' = js_div (Fin (of_int 750)) (Fin 100)"
  by (simp add: parse_defs)

lemma parse_7_51: "parseFloat ''7.51'' = js_div (Fin (of_int 751)) (Fin 100)"
  by (simp add: parse_defs)

lemmas share_defs = accepted_minor_units_def accepted_shares_def share_entry_def invalid_share_def

section \<open>The claims\<close>

subsection \<open>Equal splits\<close>

text \<open>
  C1. A submission with a valid description, a positive total of \<open>T\<close> minor units and a
  non-empty participant list, split equally (all members or the selected ones), produces
  rows without any error, and the rows' amounts in minor units sum exactly to \<open>T\<close>,
  provided that \<open>T\<close> is below \<open>2 ^ 50\<close> (the list has fewer than \<open>2 ^ 32\<close> entries, as every
  JavaScript array has).
\<close>

theorem equal_split_sum_exact:
  assumes "accepted_input st"
      and "splitType st = equal_all \<or> splitType st = equal_selected"
      and "participantIds_of st \<noteq> []"
      and "minor_units (parseFloat (amountInput st)) = Some T"
      and "T < 2 ^ 50"
      and "length (participantIds_of st) < 2 ^ 32"
  shows "\<exists>rows. splits (handleSubmit_expense st) = Some rows
           \<and> splitError (handleSubmit_expense st) = None
           \<and> total_minor_units rows = Some T"
proof -
  have T0: "0 \<le> T"
    using total_nonneg [OF _ assms(4)] assms(1) by (simp add: accepted_input_def)
  have run: "handleSubmit_expense st =
             no_errors\<lparr>splits := Some (equal_rows (Fin (of_int T)) (participantIds_of st))\<rparr>"
    using handleSubmit_equal [OF assms(1-3)] totalCents_finite [OF assms(4)] by simp
  have "total_minor_units (equal_rows (Fin (of_int T)) (participantIds_of st)) = Some T"
    by (rule total_minor_units_equal_rows [OF assms(3) T0 assms(5) length_bound [OF assms(6)]])
  then show ?thesis by (simp add: run no_errors_def)
qed

theorem equal_split_sum_exact_witness:
  "accepted_input (submission ''100.01'' equal_all [''A'', ''B'', ''C''] [] [])
   \<and> (splitType (submission ''100.01'' equal_all [''A'', ''B'', ''C''] [] []) = equal_all
      \<or> splitType (submission ''100.01'' equal_all [''A'', ''B'', ''C''] [] []) = equal_selected)
   \<and> participantIds_of (submission ''100.01'' equal_all [''A'', ''B'', ''C''] [] []) \<noteq> []
   \<and> minor_units (parseFloat (amountInput (submission ''100.01'' equal_all [''A'', ''B'', ''C''] [] [])))
       = Some 10001
   \<and> (10001::int) < 2 ^ 50
   \<and> length (participantIds_of (submission ''100.01'' equal_all [''A'', ''B'', ''C''] [] []))
       < 2 ^ 32
   \<and> (\<exists>rows. splits (handleSubmit_expense (submission ''100.01'' equal_all [''A'', ''B'', ''C''] [] []))
                = Some rows
          \<and> splitError (handleSubmit_expense (submission ''100.01'' equal_all [''A'', ''B'', ''C''] [] []))
              = None
          \<and> total_minor_units rows = Some 10001)"
proof -
  let ?st = "submission ''100.01'' equal_all [''A'', ''B'', ''C''] [] []"
  note p = parsed_cents [OF parse_100_01] parsed_positive [OF parse_100_01]
  have a: "accepted_input ?st" by (simp add: form_defs p)
  have b: "splitType ?st = equal_all \<or> splitType ?st = equal_selected" by (simp add: form_defs)
  have c: "participantIds_of ?st \<noteq> []" by (simp add: form_defs)
  have d: "minor_units (parseFloat (amountInput ?st)) = Some 10001" by (simp add: form_defs p)
  have e: "(10001::int) < 2 ^ 50" by simp
  have f: "length (participantIds_of ?st) < 2 ^ 32" by (simp add: form_defs)
  from equal_split_sum_exact [OF a b c d e f] a b c d e f show ?thesis by blast
qed

text \<open>
  Without the bound on the total the sum drifts. The amount text \<open>90071992547409.94\<close> passes
  the checks and is 9007199254740994 minor units, more than \<open>2 ^ 53\<close>. Split among A, B and
  C, the base share is 3002399751580331, its product with 3 is rounded from
  9007199254740993 to 9007199254740992, and the remainder is taken to be 2. The three rows
  carry 3002399751580332, 3002399751580332 and 3002399751580331 minor units, which is
  9007199254740995 in all: one more than the total.
\<close>

theorem equal_split_sum_drift:
  "accepted_input (submission ''90071992547409.94'' equal_all [''A'', ''B'', ''C''] [] [])
   \<and> splitType (submission ''90071992547409.94'' equal_all [''A'', ''B'', ''C''] [] []) = equal_all
   \<and> participantIds_of (submission ''90071992547409.94'' equal_all [''A'', ''B'', ''C''] [] [])
       = [''A'', ''B'', ''C'']
   \<and> minor_units (parseFloat
        (amountInput (submission ''90071992547409.94'' equal_all [''A'', ''B'', ''C''] [] [])))
       = Some 9007199254740994
   \<and> splits (handleSubmit_expense
        (submission ''90071992547409.94'' equal_all [''A'', ''B'', ''C''] [] []))
       = Some [\<lparr>user_id = ''A'', amount = Fin (3843071682022825 / 128)\<rparr>,
               \<lparr>user_id = ''B'', amount = Fin (3843071682022825 / 128)\<rparr>,
               \<lparr>user_id = ''C'', amount = Fin (7686143364045647 / 256)\<rparr>]
   \<and> total_minor_units
         [\<lparr>user_id = ''A'', amount = Fin (3843071682022825 / 128)\<rparr>,
          \<lparr>user_id = ''B'', amount = Fin (3843071682022825 / 128)\<rparr>,
          \<lparr>user_id = ''C'', amount = Fin (7686143364045647 / 256)\<rparr>]
       = Some 9007199254740995"
proof -
  let ?st = "submission ''90071992547409.94'' equal_all [''A'', ''B'', ''C''] [] []"
  have a: "accepted_input ?st" by (simp add: form_defs parse_big94 js_le_def)
  have t: "splitType ?st = equal_all" by (simp add: form_defs)
  have ids: "participantIds_of ?st = [''A'', ''B'', ''C'']" by (simp add: form_defs)
  have m: "minor_units (parseFloat (amountInput ?st)) = Some 9007199254740994"
    by (simp add: form_defs parse_big94 minor_units_def mul_big94 floor_rat_numeral_div
        del: js_mul.simps)
  have tc: "totalCents_of ?st = Fin 9007199254740994"
    using totalCents_finite [OF m] by simp
  have s: "splits (handleSubmit_expense ?st) =
           Some (equal_rows (Fin 9007199254740994) [''A'', ''B'', ''C''])"
    using handleSubmit_equal [of ?st] a t by (simp add: ids tc no_errors_def)
  have sum: "total_minor_units
         [\<lparr>user_id = ''A'', amount = Fin (3843071682022825 / 128)\<rparr>,
          \<lparr>user_id = ''B'', amount = Fin (3843071682022825 / 128)\<rparr>,
          \<lparr>user_id = ''C'', amount = Fin (7686143364045647 / 256)\<rparr>]
       = Some 9007199254740995"
    by (simp add: total_minor_units_def minor_units_share1 minor_units_share0)
  from a t ids m s sum show ?thesis by (simp only: equal_rows_big) 
qed

text \<open>
  C2. Under the same conditions, with \<open>N\<close> participants and a total of \<open>T\<close> minor units, \<open>T\<close>
  below \<open>2 ^ 50\<close> and \<open>N\<close> below \<open>2 ^ 32\<close>, the equal split produces exactly \<open>N\<close> rows, one per
  participant in the order supplied; the row at index \<open>i\<close> carries \<open>T div N\<close> minor units,
  and one more when \<open>i < T mod N\<close>. So every amount is \<open>T div N\<close> or \<open>T div N + 1\<close>, exactly
  \<open>T mod N\<close> rows carry the larger one, and they are the first \<open>T mod N\<close>. For 1000 minor
  units among A, B and C the shares are 334, 333 and 333.
\<close>

theorem equal_split_shares:
  assumes "accepted_input st"
      and "splitType st = equal_all \<or> splitType st = equal_selected"
      and "participantIds_of st \<noteq> []"
      and "minor_units (parseFloat (amountInput st)) = Some T"
      and "N = length (participantIds_of st)"
      and "T < 2 ^ 50"
      and "N < 2 ^ 32"
  shows "\<exists>rows. splits (handleSubmit_expense st) = Some rows
           \<and> length rows = N
           \<and> map user_id rows = participantIds_of st
           \<and> (\<forall>i<N. minor_units (amount (rows ! i))
                        = Some (T div int N + (if int i < T mod int N then 1 else 0)))
           \<and> (\<forall>r\<in>set rows. minor_units (amount r) = Some (T div int N)
                             \<or> minor_units (amount r) = Some (T div int N + 1))
           \<and> length (filter (\<lambda>r. minor_units (amount r) = Some (T div int N + 1)) rows)
               = nat (T mod int N)"
proof -
  let ?ids = "participantIds_of st"
  let ?rows = "equal_rows (Fin (of_int T)) ?ids"
  let ?mu = "\<lambda>r. minor_units (amount r)"
  have T0: "0 \<le> T"
    using total_nonneg [OF _ assms(4)] assms(1) by (simp add: accepted_input_def)
  have nb: "int (length ?ids) < 2 ^ 53"
    using length_bound [OF assms(7)] by (simp only: assms(5))
  have run: "handleSubmit_expense st = no_errors\<lparr>splits := Some ?rows\<rparr>"
    using handleSubmit_equal [OF assms(1-3)] totalCents_finite [OF assms(4)] by simp
  have len: "length ?rows = N"
    by (simp add: equal_rows_length assms(5))
  have N: "0 < N" using assms(3,5) by simp
  have mu: "map ?mu ?rows = map (\<lambda>i. Some (share_of T N i)) [0..<N]"
    using equal_rows_minor_units [OF assms(3) T0 assms(6) nb] by (simp add: assms(5))
  have nth: "?mu (?rows ! i) = Some (share_of T N i)" if "i < N" for i
  proof -
    have "?mu (?rows ! i) = map ?mu ?rows ! i" using that len by simp
    also have "\<dots> = Some (share_of T N i)" unfolding mu using that by simp
    finally show ?thesis .
  qed
  have each: "?mu r = Some (T div int N) \<or> ?mu r = Some (T div int N + 1)" if "r \<in> set ?rows" for r
  proof -
    from that obtain i where "i < N" "r = ?rows ! i"
      using len by (auto simp: in_set_conv_nth)
    then show ?thesis using nth [of i] by (simp add: share_of_def)
  qed
  have count: "length (filter (\<lambda>r. ?mu r = Some (T div int N + 1)) ?rows) = nat (T mod int N)"
  proof -
    have r: "0 \<le> T mod int N" "T mod int N < int N" using N by simp_all
    have "length (filter (\<lambda>r. ?mu r = Some (T div int N + 1)) ?rows)
          = length (filter (\<lambda>x. x = Some (T div int N + 1)) (map ?mu ?rows))"
      by (simp add: length_filter_map comp_def)
    also have "\<dots> = length (filter (\<lambda>i. int i < T mod int N) [0..<N])"
      unfolding mu by (simp add: length_filter_map comp_def share_of_def)
    also have "\<dots> = nat (T mod int N)"
      using r by (simp add: count_extra)
    finally show ?thesis .
  qed
  have "splits (handleSubmit_expense st) = Some ?rows"
    by (simp add: run no_errors_def)
  moreover have "map user_id ?rows = ?ids" by (rule equal_rows_user_id)
  moreover have "\<forall>i<N. ?mu (?rows ! i) = Some (T div int N + (if int i < T mod int N then 1 else 0))"
    using nth by (simp add: share_of_def)
  ultimately show ?thesis using len each count by blast
qed

theorem equal_split_shares_witness:
  "accepted_input (submission ''10'' equal_selected [''A'', ''B'', ''C'', ''D''] [''A'', ''B'', ''C''] [])
   \<and> (splitType (submission ''10'' equal_selected [''A'', ''B'', ''C'', ''D''] [''A'', ''B'', ''C''] [])
        = equal_all
      \<or> splitType (submission ''10'' equal_selected [''A'', ''B'', ''C'', ''D''] [''A'', ''B'', ''C''] [])
        = equal_selected)
   \<and> participantIds_of
        (submission ''10'' equal_selected [''A'', ''B'', ''C'', ''D''] [''A'', ''B'', ''C''] []) \<noteq> []
   \<and> minor_units (parseFloat (amountInput
        (submission ''10'' equal_selected [''A'', ''B'', ''C'', ''D''] [''A'', ''B'', ''C''] [])))
       = Some 1000
   \<and> (1000::int) < 2 ^ 50
   \<and> (3::nat) < 2 ^ 32
   \<and> (\<exists>rows. splits (handleSubmit_expense
                 (submission ''10'' equal_selected [''A'', ''B'', ''C'', ''D''] [''A'', ''B'', ''C''] []))
                = Some rows
          \<and> length rows = 3
          \<and> map user_id rows = [''A'', ''B'', ''C'']
          \<and> map (\<lambda>r. minor_units (amount r)) rows = [Some 334, Some 333, Some 333]
          \<and> length (filter (\<lambda>r. minor_units (amount r) = Some 334) rows) = 1)"
proof -
  let ?st = "submission ''10'' equal_selected [''A'', ''B'', ''C'', ''D''] [''A'', ''B'', ''C''] []"
  have a: "accepted_input ?st" by (simp add: form_defs parse_10 js_le_def)
  have b: "splitType ?st = equal_all \<or> splitType ?st = equal_selected" by (simp add: form_defs)
  have ids: "participantIds_of ?st = [''A'', ''B'', ''C'']" by (simp add: form_defs)
  have c: "participantIds_of ?st \<noteq> []" unfolding ids by simp
  have d: "minor_units (parseFloat (amountInput ?st)) = Some 1000"
    by (simp add: form_defs parse_10 minor_units_def fl_numeral floor_rat_numeral_div)
  have e: "3 = length (participantIds_of ?st)" unfolding ids by simp
  have f: "(1000::int) < 2 ^ 50" by simp
  have g: "(3::nat) < 2 ^ 32" by simp
  from equal_split_shares [OF a b c d e f g] obtain rows where
    rows: "splits (handleSubmit_expense ?st) = Some rows" "length rows = 3"
      "map user_id rows = participantIds_of ?st"
      "\<forall>i<3. minor_units (amount (rows ! i))
                = Some (1000 div int 3 + (if int i < 1000 mod int 3 then 1 else 0))"
      "length (filter (\<lambda>r. minor_units (amount r) = Some (1000 div int 3 + 1)) rows)
       = nat (1000 mod int 3)"
    by blast
  from rows(2) obtain x y z where xyz: "rows = [x, y, z]"
    by (auto simp add: numeral_3_eq_3 length_Suc_conv)
  have "minor_units (amount (rows ! 0)) = Some 334" "minor_units (amount (rows ! 1)) = Some 333"
    "minor_units (amount (rows ! 2)) = Some 333"
    using rows(4) by simp_all
  then have shares: "map (\<lambda>r. minor_units (amount r)) rows = [Some 334, Some 333, Some 333]"
    by (simp add: xyz)
  have "length (filter (\<lambda>r. minor_units (amount r) = Some 334) rows) = 1"
    using rows(5) by simp
  with rows(1-3) ids a b c d f g shares show ?thesis by simp
qed

text \<open>
  Without the bound on the total more rows than \<open>T mod N\<close> can carry the larger amount. For
  the amount text \<open>90071992547409.94\<close>, which is 9007199254740994 minor units, split among
  the selected members A, B and C, \<open>T mod 3\<close> is 1, and yet both A and B carry
  \<open>T div 3 + 1 = 3002399751580332\<close> minor units.
\<close>

theorem equal_split_two_extra:
  "accepted_input (submission ''90071992547409.94'' equal_selected [''A'', ''B'', ''C'', ''D'']
                     [''A'', ''B'', ''C''] [])
   \<and> splitType (submission ''90071992547409.94'' equal_selected [''A'', ''B'', ''C'', ''D'']
                     [''A'', ''B'', ''C''] []) = equal_selected
   \<and> participantIds_of (submission ''90071992547409.94'' equal_selected [''A'', ''B'', ''C'', ''D'']
                     [''A'', ''B'', ''C''] []) = [''A'', ''B'', ''C'']
   \<and> minor_units (parseFloat (amountInput
        (submission ''90071992547409.94'' equal_selected [''A'', ''B'', ''C'', ''D'']
           [''A'', ''B'', ''C''] [])))
       = Some 9007199254740994
   \<and> splits (handleSubmit_expense
        (submission ''90071992547409.94'' equal_selected [''A'', ''B'', ''C'', ''D'']
           [''A'', ''B'', ''C''] []))
       = Some [\<lparr>user_id = ''A'', amount = Fin (3843071682022825 / 128)\<rparr>,
               \<lparr>user_id = ''B'', amount = Fin (3843071682022825 / 128)\<rparr>,
               \<lparr>user_id = ''C'', amount = Fin (7686143364045647 / 256)\<rparr>]
   \<and> minor_units (Fin (3843071682022825 / 128)) = Some 3002399751580332
   \<and> minor_units (Fin (7686143364045647 / 256)) = Some 3002399751580331
   \<and> (9007199254740994::int) div 3 + 1 = 3002399751580332
   \<and> (9007199254740994::int) mod 3 = 1"
proof -
  let ?st = "submission ''90071992547409.94'' equal_selected [''A'', ''B'', ''C'', ''D'']
               [''A'', ''B'', ''C''] []"
  have a: "accepted_input ?st" by (simp add: form_defs parse_big94 js_le_def)
  have t: "splitType ?st = equal_selected" by (simp add: form_defs)
  have ids: "participantIds_of ?st = [''A'', ''B'', ''C'']" by (simp add: form_defs)
  have m: "minor_units (parseFloat (amountInput ?st)) = Some 9007199254740994"
    by (simp add: form_defs parse_big94 minor_units_def mul_big94 floor_rat_numeral_div
        del: js_mul.simps)
  have tc: "totalCents_of ?st = Fin 9007199254740994"
    using totalCents_finite [OF m] by simp
  have s: "splits (handleSubmit_expense ?st) =
           Some (equal_rows (Fin 9007199254740994) [''A'', ''B'', ''C''])"
    using handleSubmit_equal [of ?st] a t by (simp add: ids tc no_errors_def)
  have ar: "(9007199254740994::int) div 3 + 1 = 3002399751580332"
    "(9007199254740994::int) mod 3 = 1"
    by simp_all
  from a t ids m s ar minor_units_share1 minor_units_share0 show ?thesis
    by (simp only: equal_rows_big)
qed

text \<open>
  C8. Two submissions that differ only in the order of the participants (the same total,
  the participant list of one a permutation of the other's) both produce rows, with the
  same multiset of amounts in minor units and the same sum; position by position the
  amounts are the same, and only the participant they are attached to changes.
\<close>

theorem equal_split_permutation:
  assumes "accepted_input st" and "accepted_input st'"
      and "amountInput st' = amountInput st"
      and "splitType st = equal_all \<or> splitType st = equal_selected"
      and "splitType st' = equal_all \<or> splitType st' = equal_selected"
      and "mset (participantIds_of st') = mset (participantIds_of st)"
      and "participantIds_of st \<noteq> []"
  shows "\<exists>rows rows'.
           splits (handleSubmit_expense st) = Some rows
           \<and> splits (handleSubmit_expense st') = Some rows'
           \<and> mset (map (\<lambda>r. minor_units (amount r)) rows')
               = mset (map (\<lambda>r. minor_units (amount r)) rows)
           \<and> total_minor_units rows' = total_minor_units rows
           \<and> map amount rows' = map amount rows
           \<and> map user_id rows = participantIds_of st
           \<and> map user_id rows' = participantIds_of st'"
proof -
  let ?t = "totalCents_of st"
  let ?rows = "equal_rows ?t (participantIds_of st)"
  let ?rows' = "equal_rows ?t (participantIds_of st')"
  have t: "totalCents_of st' = ?t" by (simp add: totalCents_of_def assms(3))
  have len: "length (participantIds_of st') = length (participantIds_of st)"
    using assms(6) by (rule mset_eq_length)
  then have ne: "participantIds_of st' \<noteq> []" using assms(7) by auto
  have run: "splits (handleSubmit_expense st) = Some ?rows"
    by (simp add: handleSubmit_equal [OF assms(1,4,7)] no_errors_def)
  have run': "splits (handleSubmit_expense st') = Some ?rows'"
    by (simp add: handleSubmit_equal [OF assms(2,5) ne] no_errors_def t)
  have am: "map amount ?rows' = map amount ?rows"
    by (rule equal_rows_amount_length [OF len])
  have mu: "map (\<lambda>r. minor_units (amount r)) ?rows' = map (\<lambda>r. minor_units (amount r)) ?rows"
  proof -
    have "map (\<lambda>r. minor_units (amount r)) rs = map minor_units (map amount rs)" for rs :: "SplitRow list"
      by simp
    then show ?thesis by (simp only: am)
  qed
  have "total_minor_units ?rows' = total_minor_units ?rows"
    unfolding total_minor_units_def by (simp only: mu)
  then show ?thesis
    using run run' am mu equal_rows_user_id by metis
qed

theorem equal_split_permutation_witness:
  "accepted_input (submission ''10'' equal_selected [''A'', ''B'', ''C''] [''A'', ''B'', ''C''] [])
   \<and> accepted_input (submission ''10'' equal_selected [''A'', ''B'', ''C''] [''C'', ''A'', ''B''] [])
   \<and> mset (participantIds_of
              (submission ''10'' equal_selected [''A'', ''B'', ''C''] [''C'', ''A'', ''B''] []))
       = mset (participantIds_of
              (submission ''10'' equal_selected [''A'', ''B'', ''C''] [''A'', ''B'', ''C''] []))
   \<and> (\<exists>rows rows'.
         splits (handleSubmit_expense
                  (submission ''10'' equal_selected [''A'', ''B'', ''C''] [''A'', ''B'', ''C''] []))
           = Some rows
         \<and> splits (handleSubmit_expense
                  (submission ''10'' equal_selected [''A'', ''B'', ''C''] [''C'', ''A'', ''B''] []))
           = Some rows'
         \<and> mset (map (\<lambda>r. minor_units (amount r)) rows')
             = mset (map (\<lambda>r. minor_units (amount r)) rows)
         \<and> total_minor_units rows' = total_minor_units rows
         \<and> map amount rows' = map amount rows
         \<and> map user_id rows = [''A'', ''B'', ''C'']
         \<and> map user_id rows' = [''C'', ''A'', ''B''])"
proof -
  let ?st = "submission ''10'' equal_selected [''A'', ''B'', ''C''] [''A'', ''B'', ''C''] []"
  let ?st' = "submission ''10'' equal_selected [''A'', ''B'', ''C''] [''C'', ''A'', ''B''] []"
  have a: "accepted_input ?st" by (simp add: form_defs parse_10 js_le_def)
  have a': "accepted_input ?st'" by (simp add: form_defs parse_10 js_le_def)
  have am: "amountInput ?st' = amountInput ?st" by (simp add: submission_def)
  have b: "splitType ?st = equal_all \<or> splitType ?st = equal_selected"
    by (simp add: submission_def)
  have b': "splitType ?st' = equal_all \<or> splitType ?st' = equal_selected"
    by (simp add: submission_def)
  have ids: "participantIds_of ?st = [''A'', ''B'', ''C'']" by (simp add: form_defs)
  have ids': "participantIds_of ?st' = [''C'', ''A'', ''B'']" by (simp add: form_defs)
  have p: "mset (participantIds_of ?st') = mset (participantIds_of ?st)"
    unfolding ids ids' by simp
  have c: "participantIds_of ?st \<noteq> []" unfolding ids by simp
  from equal_split_permutation [OF a a' am b b' p c] a a' p show ?thesis
    unfolding ids ids' by blast
qed

text \<open>
  C10. The amount text \<open>1e-3\<close> passes the amount checks: it is not empty, it parses to a
  positive number, and it has no part after a dot that is longer than two characters. Its
  value in minor units is 0, so an equal split over a non-empty participant list goes
  through without an error and produces one row per participant, each with amount 0.
\<close>

theorem tiny_amount_splits_to_zero:
  assumes "trim (description st) \<noteq> []"
      and "descriptionPattern_test (trim (description st))"
      and "currentUser st \<noteq> None"
      and "amountInput st = ''1e-3''"
      and "splitType st = equal_all \<or> splitType st = equal_selected"
      and "participantIds_of st \<noteq> []"
  shows "js_gt (parseFloat (amountInput st)) (Fin 0)
         \<and> \<not> too_many_decimals (amountInput st)
         \<and> totalCents_of st = Fin 0
         \<and> amountError (handleSubmit_expense st) = None
         \<and> splitError (handleSubmit_expense st) = None
         \<and> splits (handleSubmit_expense st)
             = Some (map (\<lambda>u. \<lparr>user_id = u, amount = Fin 0\<rparr>) (participantIds_of st))"
proof -
  from tiny_amount obtain y where
    y: "0 < y" "parseFloat ''1e-3'' = Fin y" "Math_round (js_mul (Fin y) (Fin 100)) = Fin 0"
    by blast
  have pos: "js_gt (parseFloat (amountInput st)) (Fin 0)"
    using y(1) by (simp add: assms(4) y(2) js_gt_def)
  have dec: "\<not> too_many_decimals (amountInput st)"
    by (simp add: assms(4) too_many_decimals_1e_3)
  have tot: "totalCents_of st = Fin 0"
    using y(3) by (simp add: totalCents_of_def assms(4) y(2) del: js_mul.simps)
  have acc: "accepted_input st"
    using assms(1-3) dec y(1)
    by (simp add: accepted_input_def valid_details_def assms(4) y(2) js_le_def)
  have run: "handleSubmit_expense st =
             no_errors\<lparr>splits := Some (map (\<lambda>u. \<lparr>user_id = u, amount = Fin 0\<rparr>)
                                        (participantIds_of st))\<rparr>"
    using handleSubmit_equal [OF acc assms(5,6)] by (simp add: tot equal_rows_zero [OF assms(6)])
  show ?thesis using pos dec tot by (simp add: run no_errors_def)
qed

theorem tiny_amount_splits_to_zero_witness:
  "trim (description (submission ''1e-3'' equal_all [''A'', ''B''] [] [])) \<noteq> []
   \<and> descriptionPattern_test (trim (description (submission ''1e-3'' equal_all [''A'', ''B''] [] [])))
   \<and> currentUser (submission ''1e-3'' equal_all [''A'', ''B''] [] []) \<noteq> None
   \<and> amountInput (submission ''1e-3'' equal_all [''A'', ''B''] [] []) = ''1e-3''
   \<and> amountError (handleSubmit_expense (submission ''1e-3'' equal_all [''A'', ''B''] [] [])) = None
   \<and> splitError (handleSubmit_expense (submission ''1e-3'' equal_all [''A'', ''B''] [] [])) = None
   \<and> splits (handleSubmit_expense (submission ''1e-3'' equal_all [''A'', ''B''] [] []))
       = Some [\<lparr>user_id = ''A'', amount = Fin 0\<rparr>, \<lparr>user_id = ''B'', amount = Fin 0\<rparr>]"
proof -
  let ?st = "submission ''1e-3'' equal_all [''A'', ''B''] [] []"
  have a: "trim (description ?st) \<noteq> []" by (simp add: form_defs)
  have b: "descriptionPattern_test (trim (description ?st))" by (simp add: form_defs)
  have c: "currentUser ?st \<noteq> None" by (simp add: form_defs)
  have d: "amountInput ?st = ''1e-3''" by (simp add: form_defs)
  have e: "splitType ?st = equal_all \<or> splitType ?st = equal_selected" by (simp add: form_defs)
  have ids: "participantIds_of ?st = [''A'', ''B'']" by (simp add: form_defs)
  have f: "participantIds_of ?st \<noteq> []" unfolding ids by simp
  from tiny_amount_splits_to_zero [OF a b c d e f] a b c d show ?thesis
    unfolding ids by simp
qed

subsection \<open>Custom splits\<close>

text \<open>
  C3. For a custom split of a submission with a valid description and a positive total of
  \<open>T\<close> minor units: take the accepted shares (the entries that are not blank, parse, and are
  not negative), each converted to minor units, and let their sum be below \<open>2 ^ 53\<close>. When
  the sum differs from \<open>T\<close>, the handler ends with the error \<open>TotalMismatch\<close> and produces no
  rows; when the two are equal, the error it ends with, if any, is not \<open>TotalMismatch\<close>.
\<close>

theorem custom_total_mismatch:
  assumes "accepted_input st" and "splitType st = custom"
      and "minor_units (parseFloat (amountInput st)) = Some T"
      and "accepted_minor_units (customShares st) (members st) = Some cs"
      and "sum_list cs < 2 ^ 53"
  shows "(sum_list cs \<noteq> T
            \<longrightarrow> splitError (handleSubmit_expense st) = Some TotalMismatch
                \<and> splits (handleSubmit_expense st) = None)
         \<and> (sum_list cs = T
            \<longrightarrow> splitError (handleSubmit_expense st) \<noteq> Some TotalMismatch)"
proof -
  note s = accepted_minor_units_sum [OF assms(4)]
  have b: "sum_list (map (cents_or_zero (customShares st)) (members st)) < 2 ^ 53"
    using s assms(5) by simp
  have sum: "sumCents (custom_loop (customShares st) (members st)) = Fin (of_int (sum_list cs))"
    using custom_loop_sum [OF conjunct2 [OF s] b] s by simp
  have tot: "totalCents_of st = Fin (of_int T)" by (rule totalCents_finite [OF assms(3)])
  have err: "shareError (custom_loop (customShares st) (members st)) \<noteq> Some TotalMismatch"
    by (simp add: custom_loop_error)
  show ?thesis
    unfolding handleSubmit_custom [OF assms(1,2)] Let_def sum tot
    using err by (simp add: no_errors_def)
qed

theorem custom_total_mismatch_witness:
  "accepted_input (submission ''10.00'' custom [''A'', ''B''] [] [(''A'', ''2.50''), (''B'', ''7.49'')])
   \<and> minor_units (parseFloat (amountInput
        (submission ''10.00'' custom [''A'', ''B''] [] [(''A'', ''2.50''), (''B'', ''7.49'')])))
       = Some 1000
   \<and> accepted_minor_units (map_of [(''A'', ''2.50''), (''B'', ''7.49'')]) (map member_of [''A'', ''B''])
       = Some [250, 749]
   \<and> sum_list [250, 749] < (2::int) ^ 53
   \<and> splitError (handleSubmit_expense
        (submission ''10.00'' custom [''A'', ''B''] [] [(''A'', ''2.50''), (''B'', ''7.49'')]))
       = Some TotalMismatch
   \<and> splits (handleSubmit_expense
        (submission ''10.00'' custom [''A'', ''B''] [] [(''A'', ''2.50''), (''B'', ''7.49'')]))
       = None
   \<and> accepted_minor_units (map_of [(''A'', ''2.50''), (''B'', ''7.51'')]) (map member_of [''A'', ''B''])
       = Some [250, 751]
   \<and> splitError (handleSubmit_expense
        (submission ''10.00'' custom [''A'', ''B''] [] [(''A'', ''2.50''), (''B'', ''7.51'')]))
       = Some TotalMismatch
   \<and> accepted_minor_units (map_of [(''A'', ''2.50''), (''B'', ''7.50'')]) (map member_of [''A'', ''B''])
       = Some [250, 750]
   \<and> splitError (handleSubmit_expense
        (submission ''10.00'' custom [''A'', ''B''] [] [(''A'', ''2.50''), (''B'', ''7.50'')]))
       \<noteq> Some TotalMismatch"
proof -
  let ?low = "submission ''10.00'' custom [''A'', ''B''] [] [(''A'', ''2.50''), (''B'', ''7.49'')]"
  let ?high = "submission ''10.00'' custom [''A'', ''B''] [] [(''A'', ''2.50''), (''B'', ''7.51'')]"
  let ?ok = "submission ''10.00'' custom [''A'', ''B''] [] [(''A'', ''2.50''), (''B'', ''7.50'')]"
  note p = parsed_cents [OF parse_2_50] parsed_cents [OF parse_7_49]
    parsed_cents [OF parse_7_50] parsed_cents [OF parse_7_51]
  have a: "accepted_input ?low" "accepted_input ?high" "accepted_input ?ok"
    by (simp_all add: form_defs parse_10_00 js_le_def)
  have b: "splitType ?low = custom" "splitType ?high = custom" "splitType ?ok = custom"
    by (simp_all add: form_defs)
  have t: "minor_units (parseFloat (amountInput ?low)) = Some 1000"
    "minor_units (parseFloat (amountInput ?high)) = Some 1000"
    "minor_units (parseFloat (amountInput ?ok)) = Some 1000"
    by (simp_all add: form_defs parse_10_00 minor_units_def fl_numeral floor_rat_numeral_div)
  have s: "accepted_minor_units (customShares ?low) (members ?low) = Some [250, 749]"
    "accepted_minor_units (customShares ?high) (members ?high) = Some [250, 751]"
    "accepted_minor_units (customShares ?ok) (members ?ok) = Some [250, 750]"
    by (simp_all add: form_defs share_defs p)
  have s': "accepted_minor_units (map_of [(''A'', ''2.50''), (''B'', ''7.49'')])
              (map member_of [''A'', ''B'']) = Some [250, 749]"
    "accepted_minor_units (map_of [(''A'', ''2.50''), (''B'', ''7.51'')])
              (map member_of [''A'', ''B'']) = Some [250, 751]"
    "accepted_minor_units (map_of [(''A'', ''2.50''), (''B'', ''7.50'')])
              (map member_of [''A'', ''B'']) = Some [250, 750]"
    using s by (simp_all add: submission_def)
  have l: "sum_list [250, 749] < (2::int) ^ 53" "sum_list [250, 751] < (2::int) ^ 53"
    "sum_list [250, 750] < (2::int) ^ 53"
    by simp_all
  have low: "splitError (handleSubmit_expense ?low) = Some TotalMismatch
             \<and> splits (handleSubmit_expense ?low) = None"
    using custom_total_mismatch [OF a(1) b(1) t(1) s(1) l(1)] by simp
  have high: "splitError (handleSubmit_expense ?high) = Some TotalMismatch"
    using custom_total_mismatch [OF a(2) b(2) t(2) s(2) l(2)] by simp
  have ok: "splitError (handleSubmit_expense ?ok) \<noteq> Some TotalMismatch"
    using custom_total_mismatch [OF a(3) b(3) t(3) s(3) l(3)] by simp
  from a(1) t(1) s' l(1) low high ok show ?thesis by blast
qed

text \<open>
  Without the bound on the sum a mismatch can go through. With the total
  \<open>90071992547409.96\<close>, which is 9007199254740996 minor units, and the entries
  \<open>90071992547409.94\<close> for A and \<open>0.01\<close> for B, the accepted shares are 9007199254740994 and
  1 minor units, which is 9007199254740995 in all, one less than the total. The handler adds
  them as doubles, the sum is rounded to 9007199254740996, and it ends without an error and
  with a row for A and a row for B.
\<close>

theorem custom_sum_rounded:
  "accepted_input (submission ''90071992547409.96'' custom [''A'', ''B''] []
                     [(''A'', ''90071992547409.94''), (''B'', ''0.01'')])
   \<and> splitType (submission ''90071992547409.96'' custom [''A'', ''B''] []
                     [(''A'', ''90071992547409.94''), (''B'', ''0.01'')]) = custom
   \<and> minor_units (parseFloat (amountInput
        (submission ''90071992547409.96'' custom [''A'', ''B''] []
           [(''A'', ''90071992547409.94''), (''B'', ''0.01'')])))
       = Some 9007199254740996
   \<and> accepted_minor_units (map_of [(''A'', ''90071992547409.94''), (''B'', ''0.01'')])
        (map member_of [''A'', ''B''])
       = Some [9007199254740994, 1]
   \<and> sum_list [9007199254740994, 1] = (9007199254740995::int)
   \<and> splitError (handleSubmit_expense
        (submission ''90071992547409.96'' custom [''A'', ''B''] []
           [(''A'', ''90071992547409.94''), (''B'', ''0.01'')]))
       = None
   \<and> splits (handleSubmit_expense
        (submission ''90071992547409.96'' custom [''A'', ''B''] []
           [(''A'', ''90071992547409.94''), (''B'', ''0.01'')]))
       = Some [\<lparr>user_id = ''A'', amount = Fin (1441151880758559 / 16)\<rparr>,
               \<lparr>user_id = ''B'', amount = Fin (5764607523034235 / 576460752303423488)\<rparr>]"
proof -
  let ?st = "submission ''90071992547409.96'' custom [''A'', ''B''] []
               [(''A'', ''90071992547409.94''), (''B'', ''0.01'')]"
  have a: "accepted_input ?st" by (simp add: form_defs parse_big96 js_le_def)
  have t: "splitType ?st = custom" by (simp add: form_defs)
  have m: "minor_units (parseFloat (amountInput ?st)) = Some 9007199254740996"
    by (simp add: form_defs parse_big96 minor_units_def totalCents_big96 del: js_mul.simps)
  have s: "accepted_minor_units (map_of [(''A'', ''90071992547409.94''), (''B'', ''0.01'')])
             (map member_of [''A'', ''B'']) = Some [9007199254740994, 1]"
    by (simp add: form_defs share_defs parse_big94 parse_cent minor_units_def totalCents_big94
        cents_cent del: js_mul.simps)
  have e: "sum_list [9007199254740994, 1] = (9007199254740995::int)" by simp
  have r: "handleSubmit_expense ?st =
           no_errors\<lparr>splits := Some [\<lparr>user_id = ''A'', amount = Fin (1441151880758559 / 16)\<rparr>,
               \<lparr>user_id = ''B'', amount = Fin (5764607523034235 / 576460752303423488)\<rparr>]\<rparr>"
    by (simp add: handler_defs form_defs parse_big96 parse_big94 parse_cent totalCents_big96
        totalCents_big94 cents_cent add_0_big add_big_1 div_big_100 div_1_100
        del: js_mul.simps js_add.simps js_div.simps)
  from a t m s e show ?thesis by (simp add: r no_errors_def)
qed

text \<open>
  C4. The claim is that an entry that does not parse, or parses to a negative value, rejects
  the whole submission with \<open>InvalidShare\<close>, whatever the other entries are. The handler sets
  that error inside the loop's callback and goes on with the next member: with total 10 and
  the entries \<open>-5\<close> for A and \<open>10\<close> for B it ends with \<open>InvalidShare\<close> set and still produces
  the row for B; with the entries \<open>abc\<close> for A and \<open>5\<close> for B the error it ends with is
  \<open>TotalMismatch\<close>.
\<close>

theorem invalid_share_not_rejected:
  "handleSubmit_expense (submission ''10'' custom [''A'', ''B''] [] [(''A'', ''-5''), (''B'', ''10'')])
     = no_errors\<lparr>splitError := Some InvalidShare,
                  splits := Some [\<lparr>user_id = ''B'', amount = Fin 10\<rparr>]\<rparr>
   \<and> handleSubmit_expense (submission ''10'' custom [''A'', ''B''] [] [(''A'', ''abc''), (''B'', ''5'')])
     = no_errors\<lparr>splitError := Some TotalMismatch\<rparr>"
  by (simp add: handler_defs form_defs parse_10 parse_5 parse_m5 parse_abc fl_numeral
      floor_rat_numeral_div)

text \<open>
  C5. The claim is that a custom split in which no participant has a positive share ends
  with \<open>EmptyCustomSet\<close>. The handler compares the sum with the total first: with total 10,
  and with no entry at all or with only a zero and a blank entry, it ends with
  \<open>TotalMismatch\<close>.
\<close>

theorem empty_custom_set_reports_mismatch:
  "handleSubmit_expense (submission ''10'' custom [''A'', ''B''] [] [])
     = no_errors\<lparr>splitError := Some TotalMismatch\<rparr>
   \<and> handleSubmit_expense (submission ''10'' custom [''A'', ''B''] [] [(''A'', ''0''), (''B'', '' '')])
     = no_errors\<lparr>splitError := Some TotalMismatch\<rparr>"
  by (simp add: handler_defs form_defs parse_10 parse_0 fl_numeral fl_zero
      floor_rat_numeral_div floor_rat_half)

text \<open>
  C9. Take a submission with a valid description and a total of \<open>T\<close> minor units,
  \<open>0 < T < 2 ^ 50\<close>, whose equal split produced \<open>rows\<close>, over distinct participants (fewer
  than \<open>2 ^ 32\<close>) that are members of a group with distinct member ids. Submit it again as a
  custom split whose entry for each participant is a text that parses to the amount of that
  participant's row, the entries of the other members being blank. Then the handler ends
  without any error, the rows it produces sum to \<open>T\<close> minor units, and the accepted shares
  in minor units sum exactly to \<open>T\<close> as well. (The invite page keeps member ids distinct. A
  total of 0 minor units, as for the amount text \<open>1e-3\<close>, is not a positive total here.)
\<close>

theorem equal_to_custom_round_trip:
  assumes acc: "accepted_input st"
      and eq: "splitType st = equal_all \<or> splitType st = equal_selected"
      and ne: "participantIds_of st \<noteq> []"
      and tot: "minor_units (parseFloat (amountInput st)) = Some T"
      and pos: "0 < T"
      and bound: "T < 2 ^ 50"
      and len32: "length (participantIds_of st) < 2 ^ 32"
      and dm: "distinct (map userId (members st))"
      and dp: "distinct (participantIds_of st)"
      and sub: "set (participantIds_of st) \<subseteq> set (map userId (members st))"
      and rows: "splits (handleSubmit_expense st) = Some rows"
      and fed: "\<forall>r\<in>set rows. \<exists>s. shares (user_id r) = Some s \<and> parseFloat (trim s) = amount r"
      and blank: "\<forall>m\<in>set (members st).
                    userId m \<notin> set (participantIds_of st) \<longrightarrow> share_entry shares m = []"
  shows "descriptionError (handleSubmit_expense (st\<lparr>splitType := custom, customShares := shares\<rparr>)) = None
         \<and> amountError (handleSubmit_expense (st\<lparr>splitType := custom, customShares := shares\<rparr>)) = None
         \<and> splitError (handleSubmit_expense (st\<lparr>splitType := custom, customShares := shares\<rparr>)) = None
         \<and> (\<exists>rows'. splits (handleSubmit_expense (st\<lparr>splitType := custom, customShares := shares\<rparr>))
                      = Some rows'
                 \<and> total_minor_units rows' = Some T)
         \<and> (\<exists>cs. accepted_minor_units shares (members st) = Some cs \<and> sum_list cs = T)"
proof -
  let ?ids = "participantIds_of st"
  let ?n = "length ?ids"
  let ?st' = "st\<lparr>splitType := custom, customShares := shares\<rparr>"
  define c where "c u = (case shares u of None \<Rightarrow> 0
                          | Some s \<Rightarrow> (case minor_units (parseFloat (trim s)) of
                                        None \<Rightarrow> 0 | Some k \<Rightarrow> k))" for u
  define h where "h m = (if userId m \<in> set ?ids then c (userId m) else 0)" for m :: Member
  have T0: "0 \<le> T" using pos by simp
  have nb: "int ?n < 2 ^ 53" by (rule length_bound [OF len32])
  have sb: "0 \<le> share_of T ?n i" "share_of T ?n i \<le> 2 ^ 50" for i
    using share_of_bounds [OF T0 bound, of ?n i] by simp_all
  have total: "totalCents_of st = Fin (of_int T)" by (rule totalCents_finite [OF tot])
  have rows_eq: "rows = equal_rows (Fin (of_int T)) ?ids"
    using rows handleSubmit_equal [OF acc eq ne] by (simp add: total no_errors_def)
  have len: "length rows = ?n" by (simp add: rows_eq equal_rows_length)
  have uid: "user_id (rows ! i) = ?ids ! i" if "i < ?n" for i
  proof -
    have "map user_id rows ! i = ?ids ! i" by (simp add: rows_eq equal_rows_user_id)
    then show ?thesis using that len by simp
  qed
  have amt: "amount (rows ! i) = js_div (Fin (of_int (share_of T ?n i))) (Fin 100)"
    if "i < ?n" for i
  proof -
    have "map amount rows ! i = js_div (Fin (of_int (share_of T ?n i))) (Fin 100)"
      using that unfolding rows_eq equal_rows_amount [OF ne T0 bound nb] by simp
    then show ?thesis using that len by simp
  qed
  have entry: "\<exists>s. shares (?ids ! i) = Some s
                 \<and> parseFloat (trim s) = js_div (Fin (of_int (share_of T ?n i))) (Fin 100)"
    if "i < ?n" for i
  proof -
    have "rows ! i \<in> set rows" using that len by simp
    with fed obtain s where "shares (user_id (rows ! i)) = Some s"
        "parseFloat (trim s) = amount (rows ! i)" by blast
    then show ?thesis using uid [OF that] amt [OF that] by auto
  qed
  have hm: "cents_or_zero shares m = h m \<and> \<not> invalid_share (share_entry shares m)
            \<and> minor_units (parseFloat (share_entry shares m)) \<noteq> None \<and> h m \<le> 2 ^ 50
            \<or> cents_or_zero shares m = h m \<and> share_entry shares m = [] \<and> h m = 0"
    if "m \<in> set (members st)" for m
  proof (cases "userId m \<in> set ?ids")
    case True
    then obtain i where i: "i < ?n" "?ids ! i = userId m" by (auto simp add: in_set_conv_nth)
    from entry [OF i(1)] obtain s where s: "shares (userId m) = Some s"
        "parseFloat (trim s) = js_div (Fin (of_int (share_of T ?n i))) (Fin 100)"
      using i(2) by auto
    note pc = parsed_cents [OF s(2) sb]
    have se: "share_entry shares m = trim s" using s(1) by (simp add: share_entry_def)
    have nonblank: "trim s \<noteq> []"
    proof
      assume "trim s = []"
      then have "isNaN (parseFloat (trim s))" by (simp add: parseFloat_empty)
      with pc(2) show False by simp
    qed
    have hv: "h m = share_of T ?n i" using True s(1) pc(1) by (simp add: h_def c_def)
    have "cents_or_zero shares m = share_of T ?n i"
      using nonblank pc by (simp add: cents_or_zero_def invalid_share_def se)
    moreover have "\<not> invalid_share (share_entry shares m)"
      using pc by (simp add: invalid_share_def se)
    moreover have "minor_units (parseFloat (share_entry shares m)) \<noteq> None"
      using pc(1) by (simp add: se)
    ultimately show ?thesis using hv sb(2) [of i] by simp
  next
    case False
    with blank that have "share_entry shares m = []" by simp
    then show ?thesis using False by (simp add: cents_or_zero_def h_def)
  qed
  have cz: "map (cents_or_zero shares) (members st) = map h (members st)"
    using hm by (intro map_cong) auto
  have c_nth: "c (?ids ! i) = share_of T ?n i" if "i < ?n" for i
  proof -
    from entry [OF that] obtain s where s: "shares (?ids ! i) = Some s"
        "parseFloat (trim s) = js_div (Fin (of_int (share_of T ?n i))) (Fin 100)"
      by auto
    from parsed_cents(1) [OF s(2) sb] s(1) show ?thesis by (simp add: c_def)
  qed
  have sum_h: "sum_list (map h (members st)) = T"
  proof -
    have "sum_list (map h (members st))
          = sum_list (map (\<lambda>u. if u \<in> set ?ids then c u else 0) (map userId (members st)))"
      by (rule arg_cong [where f = sum_list]) (simp add: h_def)
    also have "\<dots> = sum_list (map c ?ids)"
      by (rule sum_list_restrict [OF dm dp sub])
    also have "\<dots> = sum_list (map c (map ((!) ?ids) [0..<?n]))"
      by (simp only: map_nth)
    also have "\<dots> = sum_list (map (\<lambda>i. c (?ids ! i)) [0..<?n])"
      by (simp only: map_map comp_def)
    also have "\<dots> = sum_list (map (share_of T ?n) [0..<?n])"
      by (rule arg_cong [where f = sum_list]) (simp add: c_nth)
    also have "\<dots> = T" using ne by (simp add: sum_share_of)
    finally show ?thesis .
  qed
  have sum_c: "sum_list (map (cents_or_zero shares) (members st)) = T"
    by (simp only: cz sum_h)
  have fin: "\<forall>m\<in>set (members st).
               share_entry shares m \<noteq> [] \<and> \<not> invalid_share (share_entry shares m)
               \<longrightarrow> minor_units (parseFloat (share_entry shares m)) \<noteq> None"
    using hm by blast
  have small: "\<forall>m\<in>set (members st). cents_or_zero shares m \<le> 2 ^ 50"
  proof
    fix m assume "m \<in> set (members st)"
    from hm [OF this] show "cents_or_zero shares m \<le> 2 ^ 50" by auto
  qed
  have no_invalid: "\<not> (\<exists>m\<in>set (members st). invalid_share (share_entry shares m))"
  proof
    assume "\<exists>m\<in>set (members st). invalid_share (share_entry shares m)"
    then obtain m where m: "m \<in> set (members st)" "invalid_share (share_entry shares m)" by blast
    from hm [OF m(1)] m(2) show False by (auto simp add: invalid_share_def)
  qed
  have T53: "sum_list (map (cents_or_zero shares) (members st)) < 2 ^ 53"
    using bound by (simp add: sum_c)
  from accepted_minor_units_exists [OF fin] obtain cs where
    cs: "accepted_minor_units shares (members st) = Some cs" by blast
  have sum_cs: "sum_list cs = T"
    using accepted_minor_units_sum [OF cs] by (simp add: sum_c)
  have acc': "accepted_input ?st'" using acc by (simp add: accepted_input_def valid_details_def)
  have total': "totalCents_of ?st' = Fin (of_int T)" using total by (simp add: totalCents_of_def)
  have loop_sum: "sumCents (custom_loop shares (members st)) = Fin (of_int T)"
    using custom_loop_sum [OF fin T53] by (simp add: sum_c)
  have "Fin (of_int T) \<noteq> Fin 0" using pos by simp
  then have nonempty: "customSplits (custom_loop shares (members st)) \<noteq> []"
    using custom_loop_nonempty [of shares "members st"] loop_sum by simp
  have err: "shareError (custom_loop shares (members st)) = None"
    using no_invalid by (simp add: custom_loop_error)
  have run: "handleSubmit_expense ?st' =
             no_errors\<lparr>splits := Some (customSplits (custom_loop shares (members st)))\<rparr>"
  proof -
    have cust: "splitType ?st' = custom" by simp
    have ms: "members ?st' = members st" "customShares ?st' = shares" by simp_all
    show ?thesis
      unfolding handleSubmit_custom [OF acc' cust] Let_def ms total' loop_sum
      using nonempty err by (simp add: no_errors_def)
  qed
  have "total_minor_units (customSplits (custom_loop shares (members st))) = Some T"
    using total_minor_units_positive_rows [OF fin small] by (simp add: custom_loop_rows sum_c)
  then show ?thesis using cs sum_cs by (simp add: run no_errors_def)
qed

theorem equal_to_custom_round_trip_witness:
  "accepted_input (submission ''10'' equal_selected [''A'', ''B'', ''C'', ''D''] [''A'', ''B'', ''C''] [])
   \<and> minor_units (parseFloat (amountInput
        (submission ''10'' equal_selected [''A'', ''B'', ''C'', ''D''] [''A'', ''B'', ''C''] [])))
       = Some 1000
   \<and> distinct (map userId (members
        (submission ''10'' equal_selected [''A'', ''B'', ''C'', ''D''] [''A'', ''B'', ''C''] [])))
   \<and> splits (handleSubmit_expense
        (submission ''10'' equal_selected [''A'', ''B'', ''C'', ''D''] [''A'', ''B'', ''C''] []))
       = Some [\<lparr>user_id = ''A'', amount = Fin (940126422213591 / 281474976710656)\<rparr>,
               \<lparr>user_id = ''B'', amount = Fin (1874623344892969 / 562949953421312)\<rparr>,
               \<lparr>user_id = ''C'', amount = Fin (1874623344892969 / 562949953421312)\<rparr>]
   \<and> parseFloat (trim ''3.34'') = Fin (940126422213591 / 281474976710656)
   \<and> parseFloat (trim '' 3.33'') = Fin (1874623344892969 / 562949953421312)
   \<and> splitError (handleSubmit_expense
        (submission ''10'' custom [''A'', ''B'', ''C'', ''D''] [''A'', ''B'', ''C'']
           [(''A'', ''3.34''), (''B'', '' 3.33''), (''C'', ''3.33'')]))
       = None
   \<and> (\<exists>rows'. splits (handleSubmit_expense
                  (submission ''10'' custom [''A'', ''B'', ''C'', ''D''] [''A'', ''B'', ''C'']
                     [(''A'', ''3.34''), (''B'', '' 3.33''), (''C'', ''3.33'')]))
                = Some rows'
           \<and> total_minor_units rows' = Some 1000)
   \<and> (\<exists>cs. accepted_minor_units (map_of [(''A'', ''3.34''), (''B'', '' 3.33''), (''C'', ''3.33'')])
              (map member_of [''A'', ''B'', ''C'', ''D''])
            = Some cs
          \<and> sum_list cs = 1000)"
proof -
  let ?st = "submission ''10'' equal_selected [''A'', ''B'', ''C'', ''D''] [''A'', ''B'', ''C''] []"
  let ?sh = "map_of [(''A'', ''3.34''), (''B'', '' 3.33''), (''C'', ''3.33'')]"
  let ?rows = "[\<lparr>user_id = ''A'', amount = Fin (940126422213591 / 281474976710656)\<rparr>,
                \<lparr>user_id = ''B'', amount = Fin (1874623344892969 / 562949953421312)\<rparr>,
                \<lparr>user_id = ''C'', amount = Fin (1874623344892969 / 562949953421312)\<rparr>]"
  have acc: "accepted_input ?st" by (simp add: form_defs parse_10 js_le_def)
  have eq: "splitType ?st = equal_all \<or> splitType ?st = equal_selected" by (simp add: form_defs)
  have ids: "participantIds_of ?st = [''A'', ''B'', ''C'']" by (simp add: form_defs)
  have ne: "participantIds_of ?st \<noteq> []" unfolding ids by simp
  have tot: "minor_units (parseFloat (amountInput ?st)) = Some 1000"
    by (simp add: form_defs parse_10 minor_units_def fl_numeral floor_rat_numeral_div)
  have pos: "(0::int) < 1000" by simp
  have bound: "(1000::int) < 2 ^ 50" by simp
  have len32: "length (participantIds_of ?st) < 2 ^ 32" unfolding ids by simp
  have dm: "distinct (map userId (members ?st))" by (simp add: form_defs)
  have dp: "distinct (participantIds_of ?st)" unfolding ids by simp
  have sub: "set (participantIds_of ?st) \<subseteq> set (map userId (members ?st))"
    unfolding ids by (simp add: form_defs)
  have tc: "totalCents_of ?st = Fin 1000" using totalCents_finite [OF tot] by simp
  have er: "equal_rows (Fin 1000) [''A'', ''B'', ''C''] = ?rows"
    using equal_rows_Fin [of "[''A'', ''B'', ''C'']" 1000]
    by (simp add: share_of_def div_334_100 div_333_100 del: js_div.simps)
  have rows: "splits (handleSubmit_expense ?st) = Some ?rows"
    using handleSubmit_equal [OF acc eq ne] by (simp add: ids tc er no_errors_def)
  have e1: "?sh ''A'' = Some ''3.34''
            \<and> parseFloat (trim ''3.34'') = Fin (940126422213591 / 281474976710656)"
    by (simp add: trim_def trimStart_def isStrWhiteSpaceChar_def parse_3_34)
  have e2: "?sh ''B'' = Some '' 3.33''
            \<and> parseFloat (trim '' 3.33'') = Fin (1874623344892969 / 562949953421312)"
    by (simp add: trim_def trimStart_def isStrWhiteSpaceChar_def parse_3_33)
  have e3: "?sh ''C'' = Some ''3.33''
            \<and> parseFloat (trim ''3.33'') = Fin (1874623344892969 / 562949953421312)"
    by (simp add: trim_def trimStart_def isStrWhiteSpaceChar_def parse_3_33)
  have fed: "\<forall>r\<in>set ?rows. \<exists>s. ?sh (user_id r) = Some s \<and> parseFloat (trim s) = amount r"
  proof
    fix r assume "r \<in> set ?rows"
    then consider "r = \<lparr>user_id = ''A'', amount = Fin (940126422213591 / 281474976710656)\<rparr>"
      | "r = \<lparr>user_id = ''B'', amount = Fin (1874623344892969 / 562949953421312)\<rparr>"
      | "r = \<lparr>user_id = ''C'', amount = Fin (1874623344892969 / 562949953421312)\<rparr>"
      by auto
    then show "\<exists>s. ?sh (user_id r) = Some s \<and> parseFloat (trim s) = amount r"
    proof cases
      case 1
      with e1 show ?thesis by (intro exI [of _ "''3.34''"]) (simp only: SplitRow.simps)
    next
      case 2
      with e2 show ?thesis by (intro exI [of _ "'' 3.33''"]) (simp only: SplitRow.simps)
    next
      case 3
      with e3 show ?thesis by (intro exI [of _ "''3.33''"]) (simp only: SplitRow.simps)
    qed
  qed
  have blank: "\<forall>m\<in>set (members ?st). userId m \<notin> set (participantIds_of ?st)
                 \<longrightarrow> share_entry ?sh m = []"
    unfolding ids by (simp add: form_defs share_entry_def)
  have same: "?st\<lparr>splitType := custom, customShares := ?sh\<rparr>
              = submission ''10'' custom [''A'', ''B'', ''C'', ''D''] [''A'', ''B'', ''C'']
                  [(''A'', ''3.34''), (''B'', '' 3.33''), (''C'', ''3.33'')]"
    by (simp add: submission_def)
  have ms: "members ?st = map member_of [''A'', ''B'', ''C'', ''D'']"
    by (simp add: submission_def)
  from equal_to_custom_round_trip [OF acc eq ne tot pos bound len32 dm dp sub rows fed blank]
  show ?thesis
    unfolding same ms using acc tot dm rows ms e1 e2 by simp
qed

text \<open>
  Without the bound on the total the round trip can fail. The equal split of
  \<open>90071992547409.94\<close> among A, B and C gives the amounts that the texts
  \<open>30023997515803.32\<close>, \<open>30023997515803.32\<close> and \<open>30023997515803.31\<close> parse to. Given back
  as the custom entries for the same total, they add up, as doubles, to 9007199254740996
  minor units; the total is 9007199254740994, and the handler ends with \<open>TotalMismatch\<close>
  and no rows.
\<close>

theorem equal_output_rejected_as_custom:
  "accepted_input (submission ''90071992547409.94'' equal_all [''A'', ''B'', ''C''] [] [])
   \<and> minor_units (parseFloat (amountInput
        (submission ''90071992547409.94'' equal_all [''A'', ''B'', ''C''] [] [])))
       = Some 9007199254740994
   \<and> splits (handleSubmit_expense
        (submission ''90071992547409.94'' equal_all [''A'', ''B'', ''C''] [] []))
       = Some [\<lparr>user_id = ''A'', amount = Fin (3843071682022825 / 128)\<rparr>,
               \<lparr>user_id = ''B'', amount = Fin (3843071682022825 / 128)\<rparr>,
               \<lparr>user_id = ''C'', amount = Fin (7686143364045647 / 256)\<rparr>]
   \<and> parseFloat (trim ''30023997515803.32'') = Fin (3843071682022825 / 128)
   \<and> parseFloat (trim ''30023997515803.31'') = Fin (7686143364045647 / 256)
   \<and> splitError (handleSubmit_expense
        (submission ''90071992547409.94'' custom [''A'', ''B'', ''C''] []
           [(''A'', ''30023997515803.32''), (''B'', ''30023997515803.32''),
            (''C'', ''30023997515803.31'')]))
       = Some TotalMismatch
   \<and> splits (handleSubmit_expense
        (submission ''90071992547409.94'' custom [''A'', ''B'', ''C''] []
           [(''A'', ''30023997515803.32''), (''B'', ''30023997515803.32''),
            (''C'', ''30023997515803.31'')]))
       = None"
proof -
  let ?st = "submission ''90071992547409.94'' equal_all [''A'', ''B'', ''C''] [] []"
  let ?st' = "submission ''90071992547409.94'' custom [''A'', ''B'', ''C''] []
           [(''A'', ''30023997515803.32''), (''B'', ''30023997515803.32''),
            (''C'', ''30023997515803.31'')]"
  have a: "accepted_input ?st" by (simp add: form_defs parse_big94 js_le_def)
  have t: "splitType ?st = equal_all" by (simp add: form_defs)
  have ids: "participantIds_of ?st = [''A'', ''B'', ''C'']" by (simp add: form_defs)
  have m: "minor_units (parseFloat (amountInput ?st)) = Some 9007199254740994"
    by (simp add: form_defs parse_big94 minor_units_def totalCents_big94 del: js_mul.simps)
  have tc: "totalCents_of ?st = Fin 9007199254740994"
    using totalCents_finite [OF m] by simp
  have s: "splits (handleSubmit_expense ?st) =
           Some (equal_rows (Fin 9007199254740994) [''A'', ''B'', ''C''])"
    using handleSubmit_equal [of ?st] a t by (simp add: ids tc no_errors_def)
  have p: "parseFloat (trim ''30023997515803.32'') = Fin (3843071682022825 / 128)"
    "parseFloat (trim ''30023997515803.31'') = Fin (7686143364045647 / 256)"
    by (simp_all add: trim_def trimStart_def isStrWhiteSpaceChar_def parse_share1 parse_share0)
  have r: "handleSubmit_expense ?st' = no_errors\<lparr>splitError := Some TotalMismatch\<rparr>"
    by (simp add: handler_defs form_defs parse_big94 parse_share1 parse_share0 totalCents_big94
        cents_share1 cents_share0 add_0_share1 add_share1_share1 add_sum_share0
        del: js_mul.simps js_add.simps js_div.simps)
  from a m s p show ?thesis by (simp add: r no_errors_def equal_rows_big)
qed

subsection \<open>Credits\<close>

text \<open>
  C6. A credit with a valid description and amount \<open>A\<close>, between a payer and a recipient
  that are both chosen and differ, yields exactly two rows once the expense is stored: the
  payer with \<open>-A\<close>, then the recipient with \<open>A\<close>. With payer and recipient swapped the rows
  are the original recipient with \<open>-A\<close>, then the original payer with \<open>A\<close>: each
  participant's amount is the negation of the amount it had before.
\<close>

theorem credit_two_lines:
  assumes "accepted_input st" and "paidBy st \<noteq> []" and "paidTo st \<noteq> []"
      and "paidBy st \<noteq> paidTo st"
  shows "credit_splits (handleSubmit_credit st (Inserted eid)) = Some
           [\<lparr>user_id = paidBy st, amount = js_neg (parseFloat (amountInput st)), expense_id = eid\<rparr>,
            \<lparr>user_id = paidTo st, amount = parseFloat (amountInput st), expense_id = eid\<rparr>]
         \<and> credit_splits
              (handleSubmit_credit (st\<lparr>paidBy := paidTo st, paidTo := paidBy st\<rparr>) (Inserted eid))
             = Some
           [\<lparr>user_id = paidTo st, amount = js_neg (parseFloat (amountInput st)), expense_id = eid\<rparr>,
            \<lparr>user_id = paidBy st, amount = parseFloat (amountInput st), expense_id = eid\<rparr>]
         \<and> js_neg (js_neg (parseFloat (amountInput st))) = parseFloat (amountInput st)"
proof -
  let ?sw = "st\<lparr>paidBy := paidTo st, paidTo := paidBy st\<rparr>"
  have acc: "accepted_input ?sw"
    using assms(1) by (simp add: accepted_input_def valid_details_def)
  have sw: "paidBy ?sw \<noteq> []" "paidTo ?sw \<noteq> []" "paidBy ?sw \<noteq> paidTo ?sw"
    using assms(2-4) by auto
  show ?thesis
    using handleSubmit_credit_ok [OF assms, of eid] handleSubmit_credit_ok [OF acc sw, of eid]
    by (simp add: no_credit_errors_def js_neg_neg)
qed

theorem credit_two_lines_witness:
  "accepted_input (credit_submission ''25.50'' ''A'' ''B'')
   \<and> paidBy (credit_submission ''25.50'' ''A'' ''B'') \<noteq> []
   \<and> paidTo (credit_submission ''25.50'' ''A'' ''B'') \<noteq> []
   \<and> paidBy (credit_submission ''25.50'' ''A'' ''B'') \<noteq> paidTo (credit_submission ''25.50'' ''A'' ''B'')
   \<and> credit_splits (handleSubmit_credit (credit_submission ''25.50'' ''A'' ''B'') (Inserted ''e1''))
       = Some [\<lparr>user_id = ''A'', amount = Fin (- (51 / 2)), expense_id = ''e1''\<rparr>,
               \<lparr>user_id = ''B'', amount = Fin (51 / 2), expense_id = ''e1''\<rparr>]
   \<and> credit_splits (handleSubmit_credit (credit_submission ''25.50'' ''B'' ''A'') (Inserted ''e1''))
       = Some [\<lparr>user_id = ''B'', amount = Fin (- (51 / 2)), expense_id = ''e1''\<rparr>,
               \<lparr>user_id = ''A'', amount = Fin (51 / 2), expense_id = ''e1''\<rparr>]"
proof -
  let ?st = "credit_submission ''25.50'' ''A'' ''B''"
  have a: "accepted_input ?st" by (simp add: form_defs parse_25_50 js_le_def)
  have b: "paidBy ?st \<noteq> []" by (simp add: form_defs)
  have c: "paidTo ?st \<noteq> []" by (simp add: form_defs)
  have d: "paidBy ?st \<noteq> paidTo ?st" by (simp add: form_defs)
  have v: "parseFloat (amountInput ?st) = Fin (51 / 2)" by (simp add: form_defs parse_25_50)
  have p: "paidBy ?st = ''A''" "paidTo ?st = ''B''" by (simp_all add: form_defs)
  have sw: "?st\<lparr>paidBy := ''B'', paidTo := ''A''\<rparr> = credit_submission ''25.50'' ''B'' ''A''"
    by (simp add: credit_submission_def)
  from credit_two_lines [OF a b c d, of "''e1''"] a b c d show ?thesis
    unfolding v p sw by simp
qed

text \<open>
  C7. A credit whose payer and recipient are the same never yields split rows, whatever the
  store answers; when its description and amount are valid and a payer is chosen, the
  handler ends with the error \<open>SameParticipant\<close>.
\<close>

theorem credit_same_participant:
  assumes "paidBy st = paidTo st"
  shows "credit_splits (handleSubmit_credit st reply) = None
         \<and> (valid_details st \<and> paidBy st \<noteq> []
              \<longrightarrow> participantError (handleSubmit_credit st reply) = Some SameParticipant)"
  using assms
  by (auto simp add: handleSubmit_credit_def valid_details_def no_credit_errors_def Let_def)

theorem credit_same_participant_witness:
  "paidBy (credit_submission ''25.50'' ''A'' ''A'') = paidTo (credit_submission ''25.50'' ''A'' ''A'')
   \<and> valid_details (credit_submission ''25.50'' ''A'' ''A'')
   \<and> paidBy (credit_submission ''25.50'' ''A'' ''A'') \<noteq> []
   \<and> credit_splits (handleSubmit_credit (credit_submission ''25.50'' ''A'' ''A'') (Inserted ''e1''))
       = None
   \<and> participantError (handleSubmit_credit (credit_submission ''25.50'' ''A'' ''A'') (Inserted ''e1''))
       = Some SameParticipant"
proof -
  let ?st = "credit_submission ''25.50'' ''A'' ''A''"
  have a: "paidBy ?st = paidTo ?st" by (simp add: form_defs)
  have b: "valid_details ?st" by (simp add: form_defs parse_25_50 js_le_def)
  have c: "paidBy ?st \<noteq> []" by (simp add: form_defs)
  from credit_same_participant [OF a, of "Inserted ''e1''"] a b c show ?thesis by blast
qed

end
